theory Spec2Isabelle
  imports Main "HOL-Library.Sublist"
begin

text \<open>
  A model of \<open>docs/versions.py\<close>, the script that keeps a documentation site with one
  directory per version: the link values of the version dropdown
  (\<open>get_value_for_option\<close>), the enumeration of a version's documents
  (\<open>get_html_filepaths\<close>), the bookkeeping of existing and missing versions
  (\<open>get_versions_status\<close>), the build loop (\<open>build_versions\<close>) and the promotion of
  the latest version to the root (\<open>move_latest_version_to_root\<close>). Exceptions are
  values, the file system is a tree, and every loop is a recursive function.
\<close>

section \<open>Python strings\<close>

text \<open>
  A Python \<open>str\<close> is modelled as a \<open>string\<close> (a list of characters). The operations
  below are the ones \<open>docs/versions.py\<close> applies to strings.
\<close>

text \<open>\<open>s.startswith(p)\<close>.\<close>

definition startswith :: "string \<Rightarrow> string \<Rightarrow> bool" where
  "startswith s p = prefix p s"

text \<open>\<open>s.startswith((p1, p2, ...))\<close>: some member of the tuple is a prefix.\<close>

definition startswith_any :: "string \<Rightarrow> string list \<Rightarrow> bool" where
  "startswith_any s ps = list_ex (startswith s) ps"

text \<open>\<open>s * n\<close> for an integer \<open>n\<close>: the empty string when \<open>n \<le> 0\<close>.\<close>

definition str_mul :: "string \<Rightarrow> int \<Rightarrow> string" where
  "str_mul s n = concat (replicate (nat n) s)"

text \<open>\<open>sep.join(ps)\<close>.\<close>

fun str_join :: "string \<Rightarrow> string list \<Rightarrow> string" where
  "str_join sep [] = []"
| "str_join sep [p] = p"
| "str_join sep (p # q # ps) = p @ sep @ str_join sep (q # ps)"

text \<open>
  \<open>s.replace(old, new)\<close> for a non-empty \<open>old\<close>: one scan from the left; at an
  occurrence of \<open>old\<close> the replacement is emitted and the scan goes on \<^emph>\<open>after\<close> the
  occurrence, so the output is never scanned again.
\<close>

function replace_scan :: "string \<Rightarrow> string \<Rightarrow> string \<Rightarrow> string" where
  "replace_scan old new [] = []"
| "replace_scan old new (c # cs) =
     (if old \<noteq> [] \<and> prefix old (c # cs)
      then new @ replace_scan old new (drop (length old) (c # cs))
      else c # replace_scan old new cs)"
  by pat_completeness auto
termination
  by (relation "measure (\<lambda>(old, new, s). length s)") auto

text \<open>
  \<open>s.replace(old, new)\<close>. With an empty \<open>old\<close> Python puts \<open>new\<close> before every
  character and at the end.
\<close>

definition str_replace :: "string \<Rightarrow> string \<Rightarrow> string \<Rightarrow> string" where
  "str_replace old new s =
     (if old = [] then new @ concat (map (\<lambda>c. c # new) s) else replace_scan old new s)"

text \<open>
  \<open>s.rstrip(chars)\<close>: \<open>chars\<close> is read as a set of characters, and the longest
  trailing run of characters of that set is removed.
\<close>

definition rstrip :: "string \<Rightarrow> string \<Rightarrow> string" where
  "rstrip chars s = rev (dropWhile (\<lambda>c. c \<in> set chars) (rev s))"

section \<open>Pure paths\<close>

text \<open>
  A \<open>pathlib\<close> path on POSIX, after parsing: its root (\<open>''/''\<close> for an absolute path,
  empty for a relative one) and its segments, none of which is empty, \<open>''.''\<close> or
  contains a slash.
\<close>

record pure_path =
  path_root :: string
  path_segs :: "string list"

datatype py_error =
    ValueError | IndexError | AssertionError | CalledProcessError
  | FileNotFoundError | FileExistsError | ShutilError

text \<open>
  \<open>p.relative_to(other)\<close>: the roots must agree and the segments of \<open>other\<close> must
  start those of \<open>p\<close>; otherwise ValueError. The result is a relative path, given here
  by its segments (its \<open>parts\<close>).
\<close>

definition relative_to :: "pure_path \<Rightarrow> pure_path \<Rightarrow> py_error + string list" where
  "relative_to p other =
     (if path_root p = path_root other \<and> prefix (path_segs other) (path_segs p)
      then Inr (drop (length (path_segs other)) (path_segs p))
      else Inl ValueError)"

text \<open>\<open>str(p)\<close> of a relative path with segments \<open>ps\<close>; the empty path prints as a dot.\<close>

definition str_of_parts :: "string list \<Rightarrow> string" where
  "str_of_parts ps = (if ps = [] then ''.'' else str_join ''/'' ps)"

section \<open>Link values of the version dropdown\<close>

text \<open>
  \<open>VersionManagement.get_value_for_option\<close> up to its last line: the variable
  \<open>value\<close> before the two \<open>rstrip\<close> calls. \<open>parts[0]\<close> of an empty relative path
  raises IndexError; \<open>parts[1:]\<close> of it is empty.
\<close>

definition value_before_trim ::
  "pure_path \<Rightarrow> pure_path \<Rightarrow> string \<Rightarrow> string \<Rightarrow> string \<Rightarrow> py_error + string" where
  "value_before_trim docsdir html_filepath version_in_dropdown version_in_dir latest_version =
     (case relative_to html_filepath docsdir of
        Inl e \<Rightarrow> Inl e
      | Inr parts \<Rightarrow>
          if version_in_dir = version_in_dropdown then
            (case parts of
               [] \<Rightarrow> Inl IndexError
             | p0 # rest \<Rightarrow>
                 if p0 = latest_version then Inr (str_of_parts rest)
                 else Inr (str_of_parts parts))
          else
            (let rel_path = (if version_in_dir = latest_version then str_of_parts parts
                             else str_of_parts (tl parts));
                 rel_path_len = int (length parts) - 1;
                 rel_version = (if version_in_dropdown \<noteq> latest_version
                                then version_in_dropdown else [])
             in Inr (str_replace ''//'' ''/''
                       (str_mul ''../'' rel_path_len @ rel_version @ ''/'' @ rel_path))))"

text \<open>The whole function: \<open>value.rstrip('index.html').rstrip('.html')\<close>.\<close>

definition get_value_for_option ::
  "pure_path \<Rightarrow> pure_path \<Rightarrow> string \<Rightarrow> string \<Rightarrow> string \<Rightarrow> py_error + string" where
  "get_value_for_option docsdir html_filepath version_in_dropdown version_in_dir latest_version =
     (case value_before_trim docsdir html_filepath version_in_dropdown version_in_dir
             latest_version of
        Inl e \<Rightarrow> Inl e
      | Inr v \<Rightarrow> Inr (rstrip ''.html'' (rstrip ''index.html'' v)))"

section \<open>The documentation tree\<close>

text \<open>
  The file system below \<open>docsdir\<close>: a file with its text, or a directory with its
  entries in the order \<open>os.listdir\<close> (and \<open>os.scandir\<close>) reports them. There are no
  symbolic links. A name is looked up as one path component, so a version identifier
  used as a directory name is taken to be one component (\<open>valid_seg\<close>).
\<close>

datatype node = File string | Dir "(string \<times> node) list"

definition valid_seg :: "string \<Rightarrow> bool" where
  "valid_seg s = (s \<noteq> [] \<and> s \<noteq> ''.'' \<and> s \<noteq> ''..'' \<and> CHR ''/'' \<notin> set s)"

definition listdir :: "(string \<times> node) list \<Rightarrow> string list" where
  "listdir es = map fst es"

definition isdir :: "(string \<times> node) list \<Rightarrow> string \<Rightarrow> bool" where
  "isdir es n = (case map_of es n of Some (Dir sub) \<Rightarrow> True | _ \<Rightarrow> False)"

definition isfile :: "(string \<times> node) list \<Rightarrow> string \<Rightarrow> bool" where
  "isfile es n = (case map_of es n of Some (File c) \<Rightarrow> True | _ \<Rightarrow> False)"

text \<open>\<open>os.remove\<close> of a file or \<open>shutil.rmtree\<close> of a directory that is an entry of \<open>es\<close>.\<close>

definition remove_entry :: "string \<Rightarrow> (string \<times> node) list \<Rightarrow> (string \<times> node) list" where
  "remove_entry n es = filter (\<lambda>p. fst p \<noteq> n) es"

text \<open>\<open>p.joinpath(*ps)\<close> for segments \<open>ps\<close>.\<close>

definition joinpath :: "pure_path \<Rightarrow> string list \<Rightarrow> pure_path" where
  "joinpath p ps = p\<lparr>path_segs := path_segs p @ ps\<rparr>"

text \<open>
  The entry at a path of segments below a node, if there is one, and the trees a file
  system can hold: the names in a directory are distinct.
\<close>

fun lookup_path :: "node \<Rightarrow> string list \<Rightarrow> node option" where
  "lookup_path n [] = Some n"
| "lookup_path (File c) (p # ps) = None"
| "lookup_path (Dir es) (p # ps) =
     (case map_of es p of None \<Rightarrow> None | Some x \<Rightarrow> lookup_path x ps)"

fun wf_node :: "node \<Rightarrow> bool" where
  "wf_node (File c) = True"
| "wf_node (Dir es) = (distinct (map fst es) \<and> list_all (\<lambda>p. wf_node (snd p)) es)"

section \<open>Enumerating the documents of a version\<close>

text \<open>The pattern \<open>*.html\<close>: the name ends in \<open>.html\<close>.\<close>

definition is_html :: "string \<Rightarrow> bool" where
  "is_html n = suffix ''.html'' n"

text \<open>
  \<open>Path.rglob('*.html')\<close> from a node, as paths relative to it: the matching entries of
  the directory itself, then those of each subdirectory in turn. A file has none.
\<close>

fun rglob_html :: "node \<Rightarrow> string list list" where
  "rglob_html (File c) = []"
| "rglob_html (Dir es) =
     map (\<lambda>p. [fst p]) (filter (\<lambda>p. is_html (fst p)) es)
     @ concat (map (\<lambda>p. map ((#) (fst p)) (rglob_html (snd p))) es)"

text \<open>A document below a node: an entry at a non-empty path whose name ends in \<open>.html\<close>.\<close>

definition is_document :: "node \<Rightarrow> string list \<Rightarrow> bool" where
  "is_document root ps = (ps \<noteq> [] \<and> is_html (last ps) \<and> lookup_path root ps \<noteq> None)"

text \<open>
  \<open>VersionManagement.get_html_filepaths\<close>, with the tree at \<open>docsdir\<close> as first
  argument; the generator's items are listed in the order it yields them. In the first
  branch \<open>parts[0]\<close> is the first segment below \<open>docsdir\<close>; a path that \<open>rglob\<close> yields
  has one.
\<close>

definition get_html_filepaths ::
  "(string \<times> node) list \<Rightarrow> pure_path \<Rightarrow> string \<Rightarrow> string \<Rightarrow> pure_path list" where
  "get_html_filepaths tree docsdir version_in_dir latest_version =
     (if version_in_dir = latest_version then
        map (joinpath docsdir)
          (filter (\<lambda>ps. \<not> startswith_any (hd ps) [''master'', ''main'', ''v''])
             (rglob_html (Dir tree)))
      else
        (case map_of tree version_in_dir of
           None \<Rightarrow> []
         | Some x \<Rightarrow> map (\<lambda>ps. joinpath docsdir (version_in_dir # ps)) (rglob_html x)))"

text \<open>
  The enumeration rule in the specification's words, for comparison: the documents
  under the root whose first segment is neither a tracked release nor the default
  branch.
\<close>

definition spec_promoted_documents ::
  "(string \<times> node) list \<Rightarrow> pure_path \<Rightarrow> string list \<Rightarrow> string \<Rightarrow> pure_path list" where
  "spec_promoted_documents tree docsdir tracked default_branch =
     map (joinpath docsdir)
       (filter (\<lambda>ps. hd ps \<notin> set tracked \<and> hd ps \<noteq> default_branch) (rglob_html (Dir tree)))"

section \<open>The version manager\<close>

text \<open>The command-line arguments the manager reads.\<close>

record args =
  num_releases :: int
  default_branch_name :: string
  exclude_default_branch :: bool

record manager =
  args :: args
  existing_versions :: "string list"
  non_existing_versions :: "string list"
  last_n_versions :: "string list"
  latest_version :: string

text \<open>
  \<open>VersionManagement.__init__\<close>; \<open>releases\<close> is what \<open>get_last_n_versions\<close> fetched.
  \<open>last_n_versions[0]\<close> raises IndexError when there is no release.
\<close>

definition VersionManagement_init :: "args \<Rightarrow> string list \<Rightarrow> py_error + manager" where
  "VersionManagement_init a releases =
     (case releases of
        [] \<Rightarrow> Inl IndexError
      | l # ls \<Rightarrow>
          Inr \<lparr>args = a, existing_versions = [], non_existing_versions = [],
               last_n_versions = releases, latest_version = l\<rparr>)"

definition dropdown_versions_in_order :: "manager \<Rightarrow> string list" where
  "dropdown_versions_in_order m =
     (if \<not> exclude_default_branch (args m) then [default_branch_name (args m)] else [])
     @ last_n_versions m"

text \<open>The loop of \<open>get_versions_status\<close> over \<open>os.listdir(self.docsdir)\<close>.\<close>

fun scan_dirs :: "args \<Rightarrow> (string \<times> node) list \<Rightarrow> string list \<Rightarrow> string list \<Rightarrow> string list" where
  "scan_dirs a tree [] existing = existing"
| "scan_dirs a tree (d # ds) existing =
     (let num = (if \<not> exclude_default_branch a then num_releases a + 1 else 0) in
      if isdir tree d \<and> int (length existing) < num then
        if \<not> exclude_default_branch a \<and> d = default_branch_name a
        then scan_dirs a tree ds (existing @ [d])
        else if startswith d ''v'' then scan_dirs a tree ds (existing @ [d])
        else scan_dirs a tree ds existing
      else scan_dirs a tree ds existing)"

text \<open>
  \<open>get_versions_status\<close>. The missing versions are \<open>list(set - set)\<close> in Python, whose
  order is not fixed; the list here has some order and no duplicates.
\<close>

definition get_versions_status :: "manager \<Rightarrow> (string \<times> node) list \<Rightarrow> manager" where
  "get_versions_status m tree =
     (let existing = scan_dirs (args m) tree (listdir tree) (existing_versions m);
          relevant = last_n_versions m
            @ (if \<not> exclude_default_branch (args m) then [default_branch_name (args m)] else [])
      in m\<lparr>existing_versions := existing,
            non_existing_versions := remdups (filter (\<lambda>v. v \<notin> set existing) relevant)\<rparr>)"

section \<open>Promoting the latest version\<close>

text \<open>
  What the run changes outside the manager: the tree at \<open>docsdir\<close>, the git worktrees
  that are registered, and the log. A function that raises returns the exception with
  the state it leaves behind.
\<close>

datatype log_record =
    AskedToRebuild string
  | CreatingWorktree string
  | LatestMissingWarning string

record world =
  docs :: "(string \<times> node) list"
  worktrees :: "string list"
  log :: "log_record list"

text \<open>
  \<open>shutil.move(src=version_dir/content, dst=docsdir, copy_function=shutil.copytree)\<close>.
  The destination is the directory \<open>docsdir\<close>, so the target is \<open>docsdir/content\<close>:
  shutil raises its own Error when the target exists; otherwise the source is renamed,
  which fails when the source is gone (the fallback copy then raises FileNotFoundError).
  The moved entry is listed last.
\<close>

definition shutil_move ::
  "string \<Rightarrow> string \<Rightarrow> (string \<times> node) list \<Rightarrow> py_error + (string \<times> node) list" where
  "shutil_move version content tree =
     (if map_of tree content \<noteq> None then Inl ShutilError
      else
        (case map_of tree version of
           Some (Dir ves) \<Rightarrow>
             (case map_of ves content of
                Some x \<Rightarrow>
                  Inr (map (\<lambda>p. if fst p = version
                                 then (fst p, Dir (remove_entry content ves)) else p) tree
                       @ [(content, x)])
              | None \<Rightarrow> Inl FileNotFoundError)
         | _ \<Rightarrow> Inl FileNotFoundError))"

text \<open>The loop of \<open>move_latest_version_to_root\<close> over \<open>os.listdir(version_dir)\<close>.\<close>

fun move_contents ::
  "string \<Rightarrow> string list \<Rightarrow> (string \<times> node) list \<Rightarrow> py_error option \<times> (string \<times> node) list" where
  "move_contents version [] tree = (None, tree)"
| "move_contents version (content # cs) tree =
     (let tree1 = (if isfile tree content then remove_entry content tree
                   else if isdir tree content then remove_entry content tree
                   else tree)
      in case shutil_move version content tree1 of
           Inl e \<Rightarrow> (Some e, tree1)
         | Inr tree2 \<Rightarrow> move_contents version cs tree2)"

text \<open>
  \<open>move_latest_version_to_root\<close>. \<open>os.path.isdir(version_dir)\<close> holds exactly when
  the entry is a directory; otherwise the warning is logged and the function returns.
  The last step is \<open>shutil.rmtree(version_dir)\<close>, which raises when the directory is
  not there any more.
\<close>

definition move_latest_version_to_root :: "manager \<Rightarrow> world \<Rightarrow> py_error option \<times> world" where
  "move_latest_version_to_root m w =
     (case map_of (docs w) (latest_version m) of
        Some (Dir ves) \<Rightarrow>
          (case move_contents (latest_version m) (listdir ves) (docs w) of
             (Some e, tree1) \<Rightarrow> (Some e, w\<lparr>docs := tree1\<rparr>)
           | (None, tree1) \<Rightarrow>
               if isdir tree1 (latest_version m)
               then (None, w\<lparr>docs := remove_entry (latest_version m) tree1\<rparr>)
               else (Some FileNotFoundError, w\<lparr>docs := tree1\<rparr>))
      | _ \<Rightarrow> (None, w\<lparr>log := log w @ [LatestMissingWarning (latest_version m)]\<rparr>))"

section \<open>Building versions\<close>

text \<open>
  The collaborators are outside the program; for one version they are summarised by
  what the program observes of them: whether \<open>git worktree add\<close> registered the
  worktree, whether the worktree has a \<open>docs\<close> directory (which only a worktree that
  was added can have), whether \<open>makedoc.sh\<close> is in it, whether \<open>python exec.py\<close> ends
  with status 0, the entries of the build directory afterwards, if it is there, and
  whether \<open>git worktree remove\<close> took the worktree away. Both git commands are run
  with \<open>subprocess.run\<close> and no check of their status, so by themselves they raise
  nothing; the second one runs from the directory the program was in before, which
  need not be inside the repository.
\<close>

record checkout =
  worktree_added :: bool
  has_docs_dir :: bool
  has_makedoc :: bool
  exec_succeeds :: bool
  built :: "(string \<times> node) list option"
  worktree_removed :: bool

text \<open>\<open>shutil.rmtree(..., ignore_errors=True)\<close>: removes a directory, ignores anything else.\<close>

definition cleanup_version_directory ::
  "(string \<times> node) list \<Rightarrow> string \<Rightarrow> (string \<times> node) list" where
  "cleanup_version_directory tree version =
     (if isdir tree version then remove_entry version tree else tree)"

text \<open>The assertion and \<open>subprocess.run(..., check=True)\<close> of \<open>build_local_only\<close>.\<close>

definition build_local_only :: "checkout \<Rightarrow> py_error option" where
  "build_local_only c =
     (if \<not> has_makedoc c then Some AssertionError
      else if \<not> exec_succeeds c then Some CalledProcessError
      else None)"

text \<open>
  \<open>shutil.copytree(src, dst)\<close>: lists the source first, then creates the destination,
  which must not exist.
\<close>

definition recreate_version_directory ::
  "(string \<times> node) list \<Rightarrow> checkout \<Rightarrow> string \<Rightarrow> py_error + (string \<times> node) list" where
  "recreate_version_directory tree c version =
     (case built c of
        None \<Rightarrow> Inl FileNotFoundError
      | Some es \<Rightarrow>
          if map_of tree version \<noteq> None then Inl FileExistsError
          else Inr (tree @ [(version, Dir es)]))"

text \<open>
  One round of the loop of \<open>build_versions\<close>. \<open>CheckoutBranch.__enter__\<close> runs
  \<open>git worktree add\<close> and changes into the \<open>docs\<close> directory of the worktree; when
  that raises, the \<open>with\<close> block is never entered and \<open>__exit__\<close> does not run.
  Otherwise \<open>__exit__\<close> runs \<open>git worktree remove\<close>, whether the block raised or not,
  and lets the exception through. The repository directory \<open>repodir\<close> is taken to
  exist, and \<open>git\<close> to be installed.
\<close>

definition build_version :: "checkout \<Rightarrow> string \<Rightarrow> world \<Rightarrow> py_error option \<times> world" where
  "build_version c version w =
     (let w1 = w\<lparr>log := log w @ [AskedToRebuild version, CreatingWorktree version],
                 worktrees := (if worktree_added c then worktrees w @ [version]
                               else worktrees w)\<rparr>
      in if \<not> has_docs_dir c then (Some FileNotFoundError, w1)
         else
           (let tree1 = cleanup_version_directory (docs w1) version;
                (err, tree2) =
                  (case build_local_only c of
                     Some e \<Rightarrow> (Some e, tree1)
                   | None \<Rightarrow>
                       (case recreate_version_directory tree1 c version of
                          Inl e \<Rightarrow> (Some e, tree1)
                        | Inr t \<Rightarrow> (None, t)))
            in (err, w1\<lparr>docs := tree2,
                        worktrees := (if worktree_removed c
                                      then remove1 version (worktrees w1)
                                      else worktrees w1)\<rparr>)))"

text \<open>
  \<open>build_versions\<close> for a list of versions (a single version is wrapped into a list by
  the caller), each given with what the collaborators do in its round. The loop has no
  exception handler, so the first exception leaves it.
\<close>

fun build_versions :: "(string \<times> checkout) list \<Rightarrow> world \<Rightarrow> py_error option \<times> world" where
  "build_versions [] w = (None, w)"
| "build_versions ((version, c) # vs) w =
     (case build_version c version w of
        (Some e, w1) \<Rightarrow> (Some e, w1)
      | (None, w1) \<Rightarrow> build_versions vs w1)"

section \<open>Following a link\<close>

text \<open>
  \<open>s.split(c)\<close> for a character \<open>c\<close>. The result of the recursive call is never
  empty, so the first branch of the case is never taken.
\<close>

fun split_on :: "char \<Rightarrow> string \<Rightarrow> string list" where
  "split_on c [] = [[]]"
| "split_on c (x # xs) =
     (if x = c then [] # split_on c xs
      else (case split_on c xs of
              [] \<Rightarrow> [[x]]
            | w # ws \<Rightarrow> (x # w) # ws))"

text \<open>
  Navigation of a relative link, which the program leaves to the browser: from the
  directory \<open>cur\<close> (its segments below the site root) the segments of the link are
  followed one by one; \<open>..\<close> goes up, an empty segment and \<open>.\<close> stay. The result is the
  location reached; a location that is a directory shows its \<open>index.html\<close>.
\<close>

fun follow :: "string list \<Rightarrow> string list \<Rightarrow> string list" where
  "follow cur [] = cur"
| "follow cur (s # ss) =
     (if s = ''..'' then follow (butlast cur) ss
      else if s = [] \<or> s = ''.'' then follow cur ss
      else follow (cur @ [s]) ss)"

definition navigate :: "string list \<Rightarrow> string \<Rightarrow> string list" where
  "navigate cur link = follow cur (split_on CHR ''/'' link)"

text \<open>
  Where the directory \<open>ps\<close> of version \<open>v\<close> is in the tree: the latest version is at the
  root, any other one below the directory of its name.
\<close>

definition location :: "string \<Rightarrow> string \<Rightarrow> string list \<Rightarrow> string list" where
  "location latest v ps = (if v = latest then ps else v # ps)"

text \<open>
  One hop: the link that the page \<open>index.html\<close> in directory \<open>cur\<close>, a page of version
  \<open>version_in_dir\<close>, offers for \<open>target\<close>, followed from \<open>cur\<close>.
\<close>

definition hop ::
  "pure_path \<Rightarrow> string \<Rightarrow> string \<Rightarrow> string list \<Rightarrow> string \<Rightarrow> py_error + string list" where
  "hop docsdir latest version_in_dir cur target =
     (case get_value_for_option docsdir (joinpath docsdir (cur @ [''index.html'']))
             target version_in_dir latest of
        Inl e \<Rightarrow> Inl e
      | Inr link \<Rightarrow> Inr (navigate cur link))"

section \<open>Properties of the string operations\<close>

lemma rstrip_decomp: "\<exists>run. s = rstrip cs s @ run \<and> set run \<subseteq> set cs"
proof -
  have "rev s = takeWhile (\<lambda>c. c \<in> set cs) (rev s) @ dropWhile (\<lambda>c. c \<in> set cs) (rev s)"
    by simp
  then have "s = rev (dropWhile (\<lambda>c. c \<in> set cs) (rev s))
                 @ rev (takeWhile (\<lambda>c. c \<in> set cs) (rev s))"
    by (metis rev_append rev_rev_ident)
  moreover have "set (rev (takeWhile (\<lambda>c. c \<in> set cs) (rev s))) \<subseteq> set cs"
    by (auto dest: set_takeWhileD)
  ultimately show ?thesis unfolding rstrip_def by blast
qed

lemma rstrip_last: "rstrip cs s = [] \<or> last (rstrip cs s) \<notin> set cs"
proof (cases "dropWhile (\<lambda>c. c \<in> set cs) (rev s)")
  case Nil
  then show ?thesis by (simp add: rstrip_def)
next
  case (Cons y ys)
  then have "y \<notin> set cs" by (metis (mono_tags, lifting) dropWhile_eq_Cons_conv)
  with Cons show ?thesis by (simp add: rstrip_def)
qed

lemma rstrip_subset_idem:
  assumes "set cs' \<subseteq> set cs"
  shows "rstrip cs' (rstrip cs s) = rstrip cs s"
proof -
  have "dropWhile (\<lambda>c. c \<in> set cs') (dropWhile (\<lambda>c. c \<in> set cs) (rev s))
          = dropWhile (\<lambda>c. c \<in> set cs) (rev s)"
    using assms by (intro dropWhile_dropWhile1) auto
  then show ?thesis by (simp add: rstrip_def)
qed

text \<open>The second \<open>rstrip\<close> of \<open>get_value_for_option\<close> finds nothing left to remove.\<close>

lemma trim_twice: "rstrip ''.html'' (rstrip ''index.html'' s) = rstrip ''index.html'' s"
  by (rule rstrip_subset_idem) simp

lemma set_index_html:
  "set ''index.html'' = {CHR ''i'', CHR ''n'', CHR ''d'', CHR ''e'', CHR ''x'', CHR ''.'',
     CHR ''h'', CHR ''t'', CHR ''m'', CHR ''l''}"
  by auto

lemma relative_to_joinpath: "relative_to (joinpath d ps) d = Inr ps"
  by (simp add: relative_to_def joinpath_def)

lemma value_before_trim_total:
  assumes "relative_to h d = Inr rel" "rel \<noteq> []"
  shows "\<exists>v. value_before_trim d h vdd vdir lv = Inr v"
  using assms by (cases rel) (auto simp: value_before_trim_def Let_def)

text \<open>Where the replacement of \<open>//\<close> finds nothing, and where it finds one occurrence.\<close>

lemma replace_scan_no_slash:
  "CHR ''/'' \<notin> set s \<Longrightarrow> replace_scan ''//'' ''/'' (s @ t) = s @ replace_scan ''//'' ''/'' t"
  by (induction s) auto

lemma replace_scan_one_slash:
  "t = [] \<or> hd t \<noteq> CHR ''/'' \<Longrightarrow>
     replace_scan ''//'' ''/'' (CHR ''/'' # t) = CHR ''/'' # replace_scan ''//'' ''/'' t"
  by (cases t) auto

lemma replace_scan_two_slashes:
  "replace_scan ''//'' ''/'' (CHR ''/'' # CHR ''/'' # t) = CHR ''/'' # replace_scan ''//'' ''/'' t"
  by simp

lemma str_join_Cons:
  "ps \<noteq> [] \<Longrightarrow> str_join sep (p # ps) = p @ sep @ str_join sep ps"
  by (cases ps) simp_all

lemma str_join_head:
  assumes "ps \<noteq> []" "\<forall>s\<in>set ps. valid_seg s"
  shows "str_join ''/'' ps \<noteq> [] \<and> hd (str_join ''/'' ps) \<noteq> CHR ''/''"
proof (cases ps)
  case Nil
  with assms show ?thesis by simp
next
  case (Cons p qs)
  then have "valid_seg p" using assms by simp
  then have "p \<noteq> []" "hd p \<noteq> CHR ''/''"
    by (cases p; simp add: valid_seg_def; blast)+
  then show ?thesis using Cons by (cases qs) simp_all
qed

lemma replace_scan_str_join:
  assumes "\<forall>s\<in>set ps. valid_seg s"
  shows "replace_scan ''//'' ''/'' (str_join ''/'' ps) = str_join ''/'' ps"
  using assms
proof (induction ps)
  case Nil
  then show ?case by simp
next
  case (Cons p ps)
  have np: "CHR ''/'' \<notin> set p" using Cons.prems by (simp add: valid_seg_def)
  show ?case
  proof (cases "ps = []")
    case True
    then show ?thesis using replace_scan_no_slash [OF np, of "[]"] by simp
  next
    case False
    have h: "str_join ''/'' ps = [] \<or> hd (str_join ''/'' ps) \<noteq> CHR ''/''"
      using str_join_head [OF False] Cons.prems by simp
    have "replace_scan ''//'' ''/'' (str_join ''/'' (p # ps))
            = p @ replace_scan ''//'' ''/'' (CHR ''/'' # str_join ''/'' ps)"
      using False replace_scan_no_slash [OF np] by (simp add: str_join_Cons)
    also have "\<dots> = p @ CHR ''/'' # replace_scan ''//'' ''/'' (str_join ''/'' ps)"
      using replace_scan_one_slash [OF h] by simp
    also have "\<dots> = str_join ''/'' (p # ps)"
      using Cons False by (simp add: str_join_Cons)
    finally show ?thesis .
  qed
qed

lemma replace_scan_ups:
  "t = [] \<or> hd t \<noteq> CHR ''/'' \<Longrightarrow>
   replace_scan ''//'' ''/'' (concat (replicate n ''../'') @ t)
     = concat (replicate n ''../'') @ replace_scan ''//'' ''/'' t"
proof (induction n)
  case 0
  then show ?case by simp
next
  case (Suc n)
  let ?r = "concat (replicate n ''../'') @ t"
  have "?r = [] \<or> hd ?r \<noteq> CHR ''/''"
    using Suc.prems by (cases n) auto
  then have "replace_scan ''//'' ''/'' (CHR ''/'' # ?r) = CHR ''/'' # replace_scan ''//'' ''/'' ?r"
    by (rule replace_scan_one_slash)
  then show ?case using Suc by simp
qed

lemma replace_scan_ups_slash:
  "0 < n \<Longrightarrow>
   replace_scan ''//'' ''/'' (concat (replicate n ''../'') @ CHR ''/'' # t)
     = concat (replicate n ''../'') @ replace_scan ''//'' ''/'' t"
proof (induction n)
  case 0
  then show ?case by simp
next
  case (Suc n)
  show ?case
  proof (cases n)
    case 0
    then show ?thesis by simp
  next
    case (Suc k)
    let ?r = "concat (replicate n ''../'') @ CHR ''/'' # t"
    have "?r = [] \<or> hd ?r \<noteq> CHR ''/''" using Suc by simp
    then have "replace_scan ''//'' ''/'' (CHR ''/'' # ?r) = CHR ''/'' # replace_scan ''//'' ''/'' ?r"
      by (rule replace_scan_one_slash)
    then show ?thesis using Suc.IH Suc by simp
  qed
qed

section \<open>The link value\<close>

text \<open>
  What the replacement of \<open>//\<close> by \<open>/\<close> does to a run of slashes: the scan takes them
  two at a time, so a run of \<open>k\<close> slashes becomes one of \<open>(k + 1) div 2\<close>.
\<close>

lemma replace_scan_slash_free:
  "CHR ''/'' \<notin> set s \<Longrightarrow> replace_scan ''//'' ''/'' s = s"
  using replace_scan_no_slash [of s "[]"] by simp

lemma replace_scan_step:
  "\<not> (c = CHR ''/'' \<and> t \<noteq> [] \<and> hd t = CHR ''/'') \<Longrightarrow>
     replace_scan ''//'' ''/'' (c # t) = c # replace_scan ''//'' ''/'' t"
  by (cases t) auto

lemma replace_scan_run:
  assumes "b = [] \<or> hd b \<noteq> CHR ''/''"
  shows "replace_scan ''//'' ''/'' (replicate k CHR ''/'' @ b)
           = replicate ((k + 1) div 2) CHR ''/'' @ replace_scan ''//'' ''/'' b"
proof -
  have one: "replace_scan ''//'' ''/'' (CHR ''/'' # b) = CHR ''/'' # replace_scan ''//'' ''/'' b"
    using assms by (rule replace_scan_one_slash)
  have "replace_scan ''//'' ''/'' (replicate k CHR ''/'' @ b)
           = replicate ((k + 1) div 2) CHR ''/'' @ replace_scan ''//'' ''/'' b
        \<and> replace_scan ''//'' ''/'' (replicate (Suc k) CHR ''/'' @ b)
           = replicate ((Suc k + 1) div 2) CHR ''/'' @ replace_scan ''//'' ''/'' b"
  proof (induction k)
    case 0
    show ?case using one by (simp del: replace_scan.simps)
  next
    case (Suc k)
    have "replace_scan ''//'' ''/'' (replicate (Suc (Suc k)) CHR ''/'' @ b)
            = CHR ''/'' # replace_scan ''//'' ''/'' (replicate k CHR ''/'' @ b)"
      by simp
    also have "\<dots> = CHR ''/'' # replicate ((k + 1) div 2) CHR ''/'' @ replace_scan ''//'' ''/'' b"
      using Suc by simp
    also have "\<dots> = replicate ((Suc (Suc k) + 1) div 2) CHR ''/'' @ replace_scan ''//'' ''/'' b"
      by simp
    finally show ?case using Suc by blast
  qed
  then show ?thesis by blast
qed

lemma replace_scan_prefix:
  "a = [] \<or> last a \<noteq> CHR ''/'' \<Longrightarrow>
     replace_scan ''//'' ''/'' (a @ t) = replace_scan ''//'' ''/'' a @ replace_scan ''//'' ''/'' t"
proof (induction a rule: length_induct)
  case (1 a)
  show ?case
  proof (cases a)
    case Nil
    then show ?thesis by simp
  next
    case (Cons c a')
    show ?thesis
    proof (cases "c = CHR ''/'' \<and> a' \<noteq> [] \<and> hd a' = CHR ''/''")
      case True
      then obtain a'' where a': "a' = CHR ''/'' # a''" by (cases a') auto
      have l: "a'' = [] \<or> last a'' \<noteq> CHR ''/''"
        using "1.prems" Cons a' by (auto split: if_splits)
      have "length a'' < length a" using Cons a' by simp
      with "1.IH" l have
        "replace_scan ''//'' ''/'' (a'' @ t)
           = replace_scan ''//'' ''/'' a'' @ replace_scan ''//'' ''/'' t"
        by blast
      then show ?thesis using Cons a' True by simp
    next
      case False
      have l: "a' = [] \<or> last a' \<noteq> CHR ''/''"
        using "1.prems" Cons by (auto split: if_splits)
      have "length a' < length a" using Cons by simp
      with "1.IH" l have ih:
        "replace_scan ''//'' ''/'' (a' @ t)
           = replace_scan ''//'' ''/'' a' @ replace_scan ''//'' ''/'' t"
        by blast
      have c: "a' = [] \<longrightarrow> c \<noteq> CHR ''/''" using "1.prems" Cons by auto
      have "\<not> (c = CHR ''/'' \<and> a' @ t \<noteq> [] \<and> hd (a' @ t) = CHR ''/'')"
        using False c by (cases a') auto
      then have n1: "replace_scan ''//'' ''/'' (c # (a' @ t)) = c # replace_scan ''//'' ''/'' (a' @ t)"
        by (rule replace_scan_step)
      have "\<not> (c = CHR ''/'' \<and> a' \<noteq> [] \<and> hd a' = CHR ''/'')"
        using False by blast
      then have n2: "replace_scan ''//'' ''/'' (c # a') = c # replace_scan ''//'' ''/'' a'"
        by (rule replace_scan_step)
      show ?thesis unfolding Cons append_Cons n1 n2 ih by simp
    qed
  qed
qed

text \<open>The built string when every segment is a single path component.\<close>

lemma collapsed_join:
  assumes qs: "\<forall>s\<in>set qs. valid_seg s" and ne: "qs \<noteq> []"
    and pre: "\<forall>s\<in>set pre. valid_seg s" and n: "pre = [] \<longrightarrow> 0 < n"
  shows "str_replace ''//'' ''/''
           (concat (replicate n ''../'') @ (if pre = [] then [] else hd pre) @ ''/''
              @ str_join ''/'' qs)
         = concat (replicate n ''../'') @ (if pre = [] then [] else hd pre @ ''/'')
             @ str_join ''/'' qs"
proof -
  let ?rel = "str_join ''/'' qs"
  have rel: "replace_scan ''//'' ''/'' ?rel = ?rel" using qs by (rule replace_scan_str_join)
  have hd_rel: "?rel = [] \<or> hd ?rel \<noteq> CHR ''/''"
    using str_join_head [OF ne qs] by simp
  show ?thesis
  proof (cases pre)
    case Nil
    then have "0 < n" using n by simp
    from replace_scan_ups_slash [OF this, of ?rel] rel Nil
    show ?thesis by (simp add: str_replace_def)
  next
    case (Cons v vs)
    then have vv: "valid_seg v" using pre by simp
    then have nv: "CHR ''/'' \<notin> set v" by (simp add: valid_seg_def)
    have hv: "v \<noteq> [] \<and> hd v \<noteq> CHR ''/''"
      using str_join_head [of "[v]"] vv by simp
    let ?t = "v @ CHR ''/'' # ?rel"
    have "?t = [] \<or> hd ?t \<noteq> CHR ''/''" using hv by simp
    from replace_scan_ups [OF this, of n]
    have "replace_scan ''//'' ''/'' (concat (replicate n ''../'') @ ?t)
            = concat (replicate n ''../'') @ replace_scan ''//'' ''/'' ?t" .
    also have "replace_scan ''//'' ''/'' ?t = v @ replace_scan ''//'' ''/'' (CHR ''/'' # ?rel)"
      by (rule replace_scan_no_slash [OF nv])
    also have "replace_scan ''//'' ''/'' (CHR ''/'' # ?rel) = CHR ''/'' # ?rel"
      using replace_scan_one_slash [OF hd_rel] rel by simp
    finally show ?thesis using Cons by (simp add: str_replace_def)
  qed
qed

text \<open>
  Claim C1. When the dropdown version differs from the version of the document, the
  value before the trim is the single-pass replacement of \<open>//\<close> by \<open>/\<close> in: \<open>../\<close>
  repeated (number of segments of the relative path minus one) times, then the dropdown
  version (nothing when it is the latest), then a slash, then the relative path (as it
  is when the document's version is the latest, without its first segment otherwise;
  the empty path prints as a dot). What the replacement does is fixed by two laws: a
  string without a slash is left as it is, and between a part that does not end in a
  slash and a part that does not begin with one, a run of \<open>k\<close> slashes becomes a run of
  \<open>(k + 1) div 2\<close>, so two become one and four become two: the output is not scanned
  again. For segments and a dropdown version that are single path components, the
  value is therefore free of doubled slashes: the \<open>../\<close> steps, the dropdown version
  with its slash (nothing for the latest), and the relative path.
\<close>

theorem pre_trim_value_of_other_version:
  assumes "relative_to html_filepath docsdir = Inr rel"
    and "version_in_dropdown \<noteq> version_in_dir"
  shows "value_before_trim docsdir html_filepath version_in_dropdown version_in_dir latest =
           Inr (str_replace ''//'' ''/''
                  (concat (replicate (length rel - 1) ''../'')
                   @ (if version_in_dropdown = latest then [] else version_in_dropdown)
                   @ ''/''
                   @ (if version_in_dir = latest then str_of_parts rel
                      else str_of_parts (tl rel))))
       \<and> (\<forall>s. CHR ''/'' \<notin> set s \<longrightarrow> str_replace ''//'' ''/'' s = s)
       \<and> (\<forall>a k b. (a = [] \<or> last a \<noteq> CHR ''/'') \<and> (b = [] \<or> hd b \<noteq> CHR ''/'') \<longrightarrow>
             str_replace ''//'' ''/'' (a @ replicate k CHR ''/'' @ b)
               = str_replace ''//'' ''/'' a @ replicate ((k + 1) div 2) CHR ''/''
                   @ str_replace ''//'' ''/'' b)
       \<and> ((\<forall>s\<in>set rel. valid_seg s) \<and> valid_seg version_in_dropdown
            \<and> (version_in_dir = latest \<longrightarrow> rel \<noteq> [])
            \<and> (version_in_dir \<noteq> latest \<longrightarrow> 2 \<le> length rel) \<longrightarrow>
            value_before_trim docsdir html_filepath version_in_dropdown version_in_dir latest =
              Inr (concat (replicate (length rel - 1) ''../'')
                   @ (if version_in_dropdown = latest then [] else version_in_dropdown @ ''/'')
                   @ str_join ''/'' (if version_in_dir = latest then rel else tl rel)))"
proof -
  have len: "nat (int (length rel) - 1) = length rel - 1" by simp
  have a: "value_before_trim docsdir html_filepath version_in_dropdown version_in_dir latest =
           Inr (str_replace ''//'' ''/''
                  (concat (replicate (length rel - 1) ''../'')
                   @ (if version_in_dropdown = latest then [] else version_in_dropdown)
                   @ ''/''
                   @ (if version_in_dir = latest then str_of_parts rel
                      else str_of_parts (tl rel))))"
    using assms len by (auto simp: value_before_trim_def str_mul_def Let_def)
  have b: "\<forall>s. CHR ''/'' \<notin> set s \<longrightarrow> str_replace ''//'' ''/'' s = s"
    by (simp add: str_replace_def replace_scan_slash_free)
  have c: "\<forall>a k b. (a = [] \<or> last a \<noteq> CHR ''/'') \<and> (b = [] \<or> hd b \<noteq> CHR ''/'') \<longrightarrow>
             str_replace ''//'' ''/'' (a @ replicate k CHR ''/'' @ b)
               = str_replace ''//'' ''/'' a @ replicate ((k + 1) div 2) CHR ''/''
                   @ str_replace ''//'' ''/'' b"
  proof (intro allI impI)
    fix a :: string and k and b :: string
    assume h: "(a = [] \<or> last a \<noteq> CHR ''/'') \<and> (b = [] \<or> hd b \<noteq> CHR ''/'')"
    then have "replace_scan ''//'' ''/'' (a @ replicate k CHR ''/'' @ b)
                 = replace_scan ''//'' ''/'' a @ replace_scan ''//'' ''/'' (replicate k CHR ''/'' @ b)"
      by (intro replace_scan_prefix) blast
    also have "replace_scan ''//'' ''/'' (replicate k CHR ''/'' @ b)
                 = replicate ((k + 1) div 2) CHR ''/'' @ replace_scan ''//'' ''/'' b"
      using h by (intro replace_scan_run) blast
    finally show "str_replace ''//'' ''/'' (a @ replicate k CHR ''/'' @ b)
               = str_replace ''//'' ''/'' a @ replicate ((k + 1) div 2) CHR ''/''
                   @ str_replace ''//'' ''/'' b"
      by (simp add: str_replace_def)
  qed
  have d: "value_before_trim docsdir html_filepath version_in_dropdown version_in_dir latest =
              Inr (concat (replicate (length rel - 1) ''../'')
                   @ (if version_in_dropdown = latest then [] else version_in_dropdown @ ''/'')
                   @ str_join ''/'' (if version_in_dir = latest then rel else tl rel))"
    if v: "\<forall>s\<in>set rel. valid_seg s" and vd: "valid_seg version_in_dropdown"
      and l1: "version_in_dir = latest \<longrightarrow> rel \<noteq> []"
      and l2: "version_in_dir \<noteq> latest \<longrightarrow> 2 \<le> length rel"
  proof -
    define qs where "qs = (if version_in_dir = latest then rel else tl rel)"
    define pre where "pre = (if version_in_dropdown = latest then [] else [version_in_dropdown])"
    define n where "n = length rel - 1"
    have qne: "qs \<noteq> []"
    proof (cases "version_in_dir = latest")
      case True
      then show ?thesis using l1 by (simp add: qs_def)
    next
      case False
      then have "2 \<le> length rel" using l2 by simp
      then have "tl rel \<noteq> []" by (cases rel) auto
      then show ?thesis using False by (simp add: qs_def)
    qed
    have "set (tl rel) \<subseteq> set rel" by (cases rel) auto
    then have qv: "\<forall>s\<in>set qs. valid_seg s" using v by (auto simp: qs_def)
    have pv: "\<forall>s\<in>set pre. valid_seg s" using vd by (simp add: pre_def)
    have np: "pre = [] \<longrightarrow> 0 < n"
    proof
      assume "pre = []"
      then have "version_in_dropdown = latest" by (simp add: pre_def split: if_splits)
      then have "version_in_dir \<noteq> latest" using assms(2) by simp
      then have "2 \<le> length rel" using l2 by simp
      then show "0 < n" by (simp add: n_def)
    qed
    have e1: "(if version_in_dir = latest then str_of_parts rel else str_of_parts (tl rel))
                = str_join ''/'' qs"
    proof (cases "version_in_dir = latest")
      case True
      then show ?thesis using qne by (simp add: qs_def str_of_parts_def)
    next
      case False
      then show ?thesis using qne by (simp add: qs_def str_of_parts_def)
    qed
    have e2: "(if version_in_dropdown = latest then [] else version_in_dropdown)
                = (if pre = [] then [] else hd pre)"
      by (simp add: pre_def)
    have e3: "(if version_in_dropdown = latest then [] else version_in_dropdown @ ''/'')
                = (if pre = [] then [] else hd pre @ ''/'')"
      by (simp add: pre_def)
    show ?thesis
      unfolding a e1 e2 e3 n_def [symmetric] qs_def [symmetric]
      using collapsed_join [OF qv qne pv np] by simp
  qed
  from a b c d show ?thesis by blast
qed

theorem pre_trim_value_of_other_version_witness:
  "relative_to \<lparr>path_root = ''/'', path_segs = [''tmp'', ''abc'', ''v1.2.3'', ''index.html'']\<rparr>
     \<lparr>path_root = ''/'', path_segs = [''tmp'', ''abc'']\<rparr> = Inr [''v1.2.3'', ''index.html'']
   \<and> ''v1.2.4'' \<noteq> ''v1.2.3''
   \<and> valid_seg ''v1.2.3'' \<and> valid_seg ''index.html'' \<and> valid_seg ''v1.2.4''
   \<and> str_replace ''//'' ''/'' ''..//index.html'' = ''../index.html''
   \<and> value_before_trim \<lparr>path_root = ''/'', path_segs = [''tmp'', ''abc'']\<rparr>
        \<lparr>path_root = ''/'', path_segs = [''tmp'', ''abc'', ''v1.2.3'', ''index.html'']\<rparr>
        ''v1.2.4'' ''v1.2.3'' ''v1.2.4'' = Inr ''../index.html''"
proof -
  let ?d = "\<lparr>path_root = ''/'', path_segs = [''tmp'', ''abc'']\<rparr>"
  let ?h = "\<lparr>path_root = ''/'', path_segs = [''tmp'', ''abc'', ''v1.2.3'', ''index.html'']\<rparr>"
  have r: "relative_to ?h ?d = Inr [''v1.2.3'', ''index.html'']"
    by (simp add: relative_to_def)
  have n: "''v1.2.4'' \<noteq> ''v1.2.3''" by simp
  have v1: "valid_seg ''v1.2.3''" and v2: "valid_seg ''index.html''" and v3: "valid_seg ''v1.2.4''"
    by (simp_all add: valid_seg_def)
  note t = pre_trim_value_of_other_version [OF r n, of "''v1.2.4''"]
  from t have free: "\<And>s. CHR ''/'' \<notin> set s \<Longrightarrow> str_replace ''//'' ''/'' s = s" by blast
  from t have run: "\<And>a k b. a = [] \<or> last a \<noteq> CHR ''/'' \<Longrightarrow> b = [] \<or> hd b \<noteq> CHR ''/'' \<Longrightarrow>
             str_replace ''//'' ''/'' (a @ replicate k CHR ''/'' @ b)
               = str_replace ''//'' ''/'' a @ replicate ((k + 1) div 2) CHR ''/''
                   @ str_replace ''//'' ''/'' b" by blast
  have "str_replace ''//'' ''/'' (''..'' @ replicate 2 CHR ''/'' @ ''index.html'')
          = str_replace ''//'' ''/'' ''..'' @ replicate ((2 + 1) div 2) CHR ''/''
              @ str_replace ''//'' ''/'' ''index.html''"
    by (rule run) simp_all
  also have "str_replace ''//'' ''/'' ''..'' = ''..''" by (rule free) simp
  also have "str_replace ''//'' ''/'' ''index.html'' = ''index.html''" by (rule free) simp
  finally have s0: "str_replace ''//'' ''/'' (''..'' @ replicate 2 CHR ''/'' @ ''index.html'')
          = ''..'' @ replicate ((2 + 1) div 2) CHR ''/'' @ ''index.html''" .
  have d: "(2 + 1) div 2 = Suc 0" by simp
  have r2: "replicate 2 CHR ''/'' = ''//''" by (simp add: numeral_2_eq_2)
  have s: "str_replace ''//'' ''/'' ''..//index.html'' = ''../index.html''"
    using s0 unfolding d r2 by simp
  have "(\<forall>s\<in>set [''v1.2.3'', ''index.html'']. valid_seg s) \<and> valid_seg ''v1.2.4''
            \<and> (''v1.2.3'' = ''v1.2.4'' \<longrightarrow> [''v1.2.3'', ''index.html''] \<noteq> [])
            \<and> (''v1.2.3'' \<noteq> ''v1.2.4'' \<longrightarrow> 2 \<le> length [''v1.2.3'', ''index.html''])"
    using v1 v2 v3 by simp
  with t have "value_before_trim ?d ?h ''v1.2.4'' ''v1.2.3'' ''v1.2.4'' =
              Inr (concat (replicate (length [''v1.2.3'', ''index.html''] - 1) ''../'')
                   @ (if ''v1.2.4'' = ''v1.2.4'' then [] else ''v1.2.4'' @ ''/'')
                   @ str_join ''/'' (if ''v1.2.3'' = ''v1.2.4'' then [''v1.2.3'', ''index.html'']
                                     else tl [''v1.2.3'', ''index.html'']))"
    by blast
  then have "value_before_trim ?d ?h ''v1.2.4'' ''v1.2.3'' ''v1.2.4'' = Inr ''../index.html''"
    by simp
  with r n v1 v2 v3 s show ?thesis by blast
qed

text \<open>
  Claim C2. The returned value is the value before the trim with \<open>rstrip('index.html')\<close>
  and then \<open>rstrip('.html')\<close> applied: what is cut off is a run of characters of the set
  \<open>{i,n,d,e,x,.,h,t,m,l}\<close>, and what is kept is empty or ends outside that set. It is
  not a suffix removal: \<open>docs/annex.html\<close> is cut down to \<open>docs/a\<close>.
\<close>

theorem trailing_trim_is_character_class:
  assumes "value_before_trim docsdir html_filepath version_in_dropdown version_in_dir latest = Inr v"
  shows "get_value_for_option docsdir html_filepath version_in_dropdown version_in_dir latest
           = Inr (rstrip ''.html'' (rstrip ''index.html'' v))
       \<and> (\<exists>run. v = rstrip ''.html'' (rstrip ''index.html'' v) @ run
              \<and> set run \<subseteq> {CHR ''i'', CHR ''n'', CHR ''d'', CHR ''e'', CHR ''x'', CHR ''.'', CHR ''h'', CHR ''t'', CHR ''m'', CHR ''l''})
       \<and> (rstrip ''.html'' (rstrip ''index.html'' v) = []
            \<or> last (rstrip ''.html'' (rstrip ''index.html'' v)) \<notin> {CHR ''i'', CHR ''n'', CHR ''d'', CHR ''e'', CHR ''x'', CHR ''.'', CHR ''h'', CHR ''t'', CHR ''m'', CHR ''l''})
       \<and> rstrip ''.html'' (rstrip ''index.html'' ''docs/annex.html'') = ''docs/a''"
proof -
  have 1: "get_value_for_option docsdir html_filepath version_in_dropdown version_in_dir latest
           = Inr (rstrip ''.html'' (rstrip ''index.html'' v))"
    using assms by (simp add: get_value_for_option_def)
  have 2: "\<exists>run. v = rstrip ''.html'' (rstrip ''index.html'' v) @ run
              \<and> set run \<subseteq> {CHR ''i'', CHR ''n'', CHR ''d'', CHR ''e'', CHR ''x'', CHR ''.'', CHR ''h'', CHR ''t'', CHR ''m'', CHR ''l''}"
    using rstrip_decomp [of v "''index.html''"] unfolding trim_twice set_index_html .
  have 3: "rstrip ''.html'' (rstrip ''index.html'' v) = []
            \<or> last (rstrip ''.html'' (rstrip ''index.html'' v)) \<notin> {CHR ''i'', CHR ''n'', CHR ''d'', CHR ''e'', CHR ''x'', CHR ''.'', CHR ''h'', CHR ''t'', CHR ''m'', CHR ''l''}"
    using rstrip_last [of "''index.html''" v] unfolding trim_twice set_index_html .
  have 4: "rstrip ''.html'' (rstrip ''index.html'' ''docs/annex.html'') = ''docs/a''"
    by (simp add: rstrip_def)
  from 1 2 3 4 show ?thesis by blast
qed

theorem trailing_trim_is_character_class_witness:
  "value_before_trim \<lparr>path_root = ''/'', path_segs = [''tmp'', ''abc'']\<rparr>
        \<lparr>path_root = ''/'', path_segs = [''tmp'', ''abc'', ''docs'', ''annex.html'']\<rparr>
        ''v1.2.3'' ''v1.2.4'' ''v1.2.4'' = Inr ''../v1.2.3/docs/annex.html''
   \<and> get_value_for_option \<lparr>path_root = ''/'', path_segs = [''tmp'', ''abc'']\<rparr>
        \<lparr>path_root = ''/'', path_segs = [''tmp'', ''abc'', ''docs'', ''annex.html'']\<rparr>
        ''v1.2.3'' ''v1.2.4'' ''v1.2.4'' = Inr ''../v1.2.3/docs/a''"
proof -
  have v: "value_before_trim \<lparr>path_root = ''/'', path_segs = [''tmp'', ''abc'']\<rparr>
        \<lparr>path_root = ''/'', path_segs = [''tmp'', ''abc'', ''docs'', ''annex.html'']\<rparr>
        ''v1.2.3'' ''v1.2.4'' ''v1.2.4'' = Inr ''../v1.2.3/docs/annex.html''"
    by (simp add: value_before_trim_def relative_to_def str_replace_def str_of_parts_def str_mul_def)
  show ?thesis
    using trailing_trim_is_character_class [OF v] v by (simp add: rstrip_def)
qed

text \<open>
  Claim C9, as stated, fails: for \<open>index.html\<close> at the promoted root, with the promoted
  version as target, the function does not return \<open>index.html\<close> (it returns the empty
  string, the trim having removed every character).
\<close>

theorem root_document_own_version_counterexample:
  "get_value_for_option \<lparr>path_root = ''/'', path_segs = [''tmp'', ''abc'']\<rparr>
     \<lparr>path_root = ''/'', path_segs = [''tmp'', ''abc'', ''index.html'']\<rparr>
     ''v1.2.3'' ''v1.2.3'' ''v1.2.3'' \<noteq> Inr ''index.html''"
  by (simp add: get_value_for_option_def value_before_trim_def relative_to_def str_of_parts_def rstrip_def)

text \<open>
  Claim C9, amended. For a document with a single segment at the promoted root, whose
  name is not the identifier of the latest version, and the latest version as the
  document's version and as target: the value before the trim is the document's own
  relative path, with nothing in front, and the returned value is that path after the
  two \<open>rstrip\<close> calls.
\<close>

theorem root_document_own_version:
  assumes "name \<noteq> latest"
  shows "value_before_trim docsdir (joinpath docsdir [name]) latest latest latest = Inr name
       \<and> get_value_for_option docsdir (joinpath docsdir [name]) latest latest latest
           = Inr (rstrip ''.html'' (rstrip ''index.html'' name))"
  using assms
  by (simp add: get_value_for_option_def value_before_trim_def relative_to_joinpath str_of_parts_def)

theorem root_document_own_version_witness:
  "''about.html'' \<noteq> ''v1.2.3''
   \<and> value_before_trim \<lparr>path_root = ''/'', path_segs = [''tmp'', ''abc'']\<rparr>
       \<lparr>path_root = ''/'', path_segs = [''tmp'', ''abc'', ''about.html'']\<rparr>
       ''v1.2.3'' ''v1.2.3'' ''v1.2.3'' = Inr ''about.html''
   \<and> get_value_for_option \<lparr>path_root = ''/'', path_segs = [''tmp'', ''abc'']\<rparr>
       \<lparr>path_root = ''/'', path_segs = [''tmp'', ''abc'', ''about.html'']\<rparr>
       ''v1.2.3'' ''v1.2.3'' ''v1.2.3'' = Inr ''abou''"
proof -
  have n: "''about.html'' \<noteq> ''v1.2.3''" by simp
  show ?thesis
    using root_document_own_version [OF n, of "\<lparr>path_root = ''/'', path_segs = [''tmp'', ''abc'']\<rparr>"]
    by (simp add: joinpath_def rstrip_def)
qed

text \<open>
  Claim C10. For a document below \<open>docsdir\<close> the function returns a string, which is
  empty or ends in a character outside \<open>{i,n,d,e,x,.,h,t,m,l}\<close>; for \<open>index.html\<close>
  directly at the promoted root, with the latest version as the document's version and
  as target, it returns the empty string.
\<close>

theorem returned_value_ends_outside_trim_set:
  assumes "relative_to html_filepath docsdir = Inr rel" and "rel \<noteq> []"
  shows "(\<exists>r. get_value_for_option docsdir html_filepath version_in_dropdown version_in_dir latest = Inr r
            \<and> (r = [] \<or> last r \<notin> {CHR ''i'', CHR ''n'', CHR ''d'', CHR ''e'', CHR ''x'', CHR ''.'', CHR ''h'', CHR ''t'', CHR ''m'', CHR ''l''}))
       \<and> get_value_for_option docsdir (joinpath docsdir [''index.html'']) latest latest latest = Inr []"
proof -
  obtain v where v: "value_before_trim docsdir html_filepath version_in_dropdown version_in_dir latest = Inr v"
    using value_before_trim_total [OF assms] by blast
  have "rstrip ''.html'' (rstrip ''index.html'' v) = []
            \<or> last (rstrip ''.html'' (rstrip ''index.html'' v)) \<notin> {CHR ''i'', CHR ''n'', CHR ''d'', CHR ''e'', CHR ''x'', CHR ''.'', CHR ''h'', CHR ''t'', CHR ''m'', CHR ''l''}"
    using rstrip_last [of "''index.html''" v] unfolding trim_twice set_index_html .
  with v have a: "\<exists>r. get_value_for_option docsdir html_filepath version_in_dropdown version_in_dir latest = Inr r
            \<and> (r = [] \<or> last r \<notin> {CHR ''i'', CHR ''n'', CHR ''d'', CHR ''e'', CHR ''x'', CHR ''.'', CHR ''h'', CHR ''t'', CHR ''m'', CHR ''l''})"
    by (simp add: get_value_for_option_def)
  have b: "get_value_for_option docsdir (joinpath docsdir [''index.html'']) latest latest latest = Inr []"
    by (simp add: get_value_for_option_def value_before_trim_def relative_to_joinpath str_of_parts_def rstrip_def)
  from a b show ?thesis by blast
qed

theorem returned_value_ends_outside_trim_set_witness:
  "relative_to \<lparr>path_root = ''/'', path_segs = [''tmp'', ''abc'', ''v1.2.3'', ''api'', ''index.html'']\<rparr>
     \<lparr>path_root = ''/'', path_segs = [''tmp'', ''abc'']\<rparr> = Inr [''v1.2.3'', ''api'', ''index.html'']
   \<and> [''v1.2.3'', ''api'', ''index.html''] \<noteq> []
   \<and> get_value_for_option \<lparr>path_root = ''/'', path_segs = [''tmp'', ''abc'']\<rparr>
        \<lparr>path_root = ''/'', path_segs = [''tmp'', ''abc'', ''v1.2.3'', ''api'', ''index.html'']\<rparr>
        ''master'' ''v1.2.3'' ''v1.2.4'' = Inr ''../../master/api/''
   \<and> get_value_for_option \<lparr>path_root = ''/'', path_segs = [''tmp'', ''abc'']\<rparr>
        \<lparr>path_root = ''/'', path_segs = [''tmp'', ''abc'', ''index.html'']\<rparr>
        ''v1.2.4'' ''v1.2.4'' ''v1.2.4'' = Inr []"
proof -
  have r: "relative_to \<lparr>path_root = ''/'', path_segs = [''tmp'', ''abc'', ''v1.2.3'', ''api'', ''index.html'']\<rparr>
     \<lparr>path_root = ''/'', path_segs = [''tmp'', ''abc'']\<rparr> = Inr [''v1.2.3'', ''api'', ''index.html'']"
    by (simp add: relative_to_def)
  have n: "[''v1.2.3'', ''api'', ''index.html''] \<noteq> []" by simp
  have g: "get_value_for_option \<lparr>path_root = ''/'', path_segs = [''tmp'', ''abc'']\<rparr>
        \<lparr>path_root = ''/'', path_segs = [''tmp'', ''abc'', ''v1.2.3'', ''api'', ''index.html'']\<rparr>
        ''master'' ''v1.2.3'' ''v1.2.4'' = Inr ''../../master/api/''"
    by (simp add: get_value_for_option_def value_before_trim_def relative_to_def str_replace_def
        str_of_parts_def str_mul_def rstrip_def eval_nat_numeral)
  show ?thesis
    using returned_value_ends_outside_trim_set [OF r n, of "''v1.2.4''"] r g
    by (simp add: joinpath_def)
qed

section \<open>The documents of a version\<close>

lemma rglob_html_nonempty: "[] \<notin> set (rglob_html n)"
  by (cases n) auto

lemma rglob_html_Dir_single:
  "([p] \<in> set (rglob_html (Dir es))) = (is_html p \<and> p \<in> fst ` set es)"
proof
  assume "[p] \<in> set (rglob_html (Dir es))"
  then show "is_html p \<and> p \<in> fst ` set es"
    using rglob_html_nonempty by fastforce
next
  assume "is_html p \<and> p \<in> fst ` set es"
  then obtain x where "(p, x) \<in> set es" "is_html p" by auto
  then have "[p] \<in> (\<lambda>p. [fst p]) ` {p \<in> set es. is_html (fst p)}" by force
  then show "[p] \<in> set (rglob_html (Dir es))" by simp
qed

lemma rglob_html_Dir_deep:
  "(p # q # rs \<in> set (rglob_html (Dir es))) = (\<exists>x. (p, x) \<in> set es \<and> q # rs \<in> set (rglob_html x))"
proof
  assume "p # q # rs \<in> set (rglob_html (Dir es))"
  then show "\<exists>x. (p, x) \<in> set es \<and> q # rs \<in> set (rglob_html x)" by auto
next
  assume "\<exists>x. (p, x) \<in> set es \<and> q # rs \<in> set (rglob_html x)"
  then obtain x where x: "(p, x) \<in> set es" "q # rs \<in> set (rglob_html x)" by blast
  then have "\<exists>e\<in>set es. p # q # rs \<in> (#) (fst e) ` set (rglob_html (snd e))"
    by (intro bexI [of _ "(p, x)"]) simp_all
  then show "p # q # rs \<in> set (rglob_html (Dir es))" by simp
qed

lemma is_document_single:
  "is_document (Dir es) [p] = (is_html p \<and> p \<in> fst ` set es)"
proof (cases "map_of es p")
  case None
  then have "p \<notin> fst ` set es" by (simp add: map_of_eq_None_iff)
  then show ?thesis unfolding is_document_def lookup_path.simps None by simp
next
  case (Some a)
  then have "p \<in> fst ` set es" by (metis map_of_eq_None_iff option.distinct(1))
  with Some show ?thesis by (simp add: is_document_def)
qed

lemma is_document_deep:
  assumes "distinct (map fst es)"
  shows "is_document (Dir es) (p # q # rs) = (\<exists>x. (p, x) \<in> set es \<and> is_document x (q # rs))"
proof (cases "map_of es p")
  case None
  then have "\<And>x. (p, x) \<notin> set es" by (metis map_of_eq_None_iff fst_conv image_eqI)
  with None show ?thesis by (simp add: is_document_def)
next
  case (Some y)
  then have "\<And>x. ((p, x) \<in> set es) = (x = y)" using assms by (metis map_of_eq_Some_iff option.inject)
  with Some show ?thesis by (simp add: is_document_def)
qed

lemma rglob_html_iff:
  "wf_node n \<Longrightarrow> (ps \<in> set (rglob_html n)) = is_document n ps"
proof (induction n arbitrary: ps rule: rglob_html.induct)
  case (1 c)
  then show ?case by (cases ps) (simp_all add: is_document_def)
next
  case (2 es)
  have d: "distinct (map fst es)" and w: "\<And>p. p \<in> set es \<Longrightarrow> wf_node (snd p)"
    using "2.prems" by (auto simp: list_all_iff)
  show ?case
  proof (cases ps)
    case Nil
    then show ?thesis using rglob_html_nonempty [of "Dir es"] by (simp add: is_document_def)
  next
    case (Cons p qs)
    show ?thesis
    proof (cases qs)
      case Nil
      then show ?thesis using Cons rglob_html_Dir_single is_document_single by simp
    next
      case (Cons q rs)
      have "\<And>x. (p, x) \<in> set es \<Longrightarrow> (q # rs \<in> set (rglob_html x)) = is_document x (q # rs)"
      proof -
        fix x assume m: "(p, x) \<in> set es"
        from "2.IH" [OF m] w [OF m] show "(q # rs \<in> set (rglob_html x)) = is_document x (q # rs)"
          by simp
      qed
      then have "(p # q # rs \<in> set (rglob_html (Dir es))) = is_document (Dir es) (p # q # rs)"
        unfolding rglob_html_Dir_deep is_document_deep [OF d] by blast
      then show ?thesis using \<open>ps = p # qs\<close> Cons by simp
    qed
  qed
qed

lemma joinpath_inject: "(joinpath d ps = joinpath d qs) = (ps = qs)"
  by (auto simp: joinpath_def) (metis append_same_eq pure_path.select_convs(2) pure_path.surjective pure_path.update_convs(2) same_append_eq)

text \<open>
  Claim C3, as stated, fails: with the latest version \<open>v1.2.3\<close> promoted and the
  default branch \<open>master\<close> tracked, the root document \<open>versions.html\<close> is not the name
  of any tracked version, yet it is not enumerated.
\<close>

theorem promoted_documents_counterexample:
  "set (get_html_filepaths
          [(''index.html'', File ''home''), (''versions.html'', File ''list''),
           (''master'', Dir [(''index.html'', File ''dev'')])]
          \<lparr>path_root = ''/'', path_segs = [''tmp'', ''abc'']\<rparr> ''v1.2.3'' ''v1.2.3'')
   \<noteq> set (spec_promoted_documents
          [(''index.html'', File ''home''), (''versions.html'', File ''list''),
           (''master'', Dir [(''index.html'', File ''dev'')])]
          \<lparr>path_root = ''/'', path_segs = [''tmp'', ''abc'']\<rparr> [''v1.2.3''] ''master'')"
  by (simp add: get_html_filepaths_def spec_promoted_documents_def startswith_any_def
      startswith_def is_html_def joinpath_def suffix_def)

text \<open>
  Claim C3, amended. In a well-formed tree, for the latest version the function yields
  exactly the documents below \<open>docsdir\<close> whose first segment does not start with
  \<open>master\<close>, \<open>main\<close> or \<open>v\<close>; for any other version (a single path component) it yields
  exactly the documents below \<open>docsdir/version_in_dir\<close>, at any depth.
\<close>

theorem html_filepaths_of_version:
  assumes "wf_node (Dir tree)"
  shows "set (get_html_filepaths tree docsdir latest latest)
           = {joinpath docsdir ps | ps. is_document (Dir tree) ps
                \<and> \<not> startswith_any (hd ps) [''master'', ''main'', ''v'']}
       \<and> (version_in_dir \<noteq> latest \<and> valid_seg version_in_dir \<longrightarrow>
            set (get_html_filepaths tree docsdir version_in_dir latest)
              = {joinpath docsdir (version_in_dir # ps) | ps.
                   ps \<noteq> [] \<and> is_document (Dir tree) (version_in_dir # ps)})"
proof -
  have a: "set (get_html_filepaths tree docsdir latest latest)
           = {joinpath docsdir ps | ps. is_document (Dir tree) ps
                \<and> \<not> startswith_any (hd ps) [''master'', ''main'', ''v'']}"
  proof -
    have "set (get_html_filepaths tree docsdir latest latest)
            = joinpath docsdir ` {ps \<in> set (rglob_html (Dir tree)).
                \<not> startswith_any (hd ps) [''master'', ''main'', ''v'']}"
      by (simp add: get_html_filepaths_def del: rglob_html.simps)
    also have "\<dots> = joinpath docsdir ` {ps. is_document (Dir tree) ps
                \<and> \<not> startswith_any (hd ps) [''master'', ''main'', ''v'']}"
      unfolding rglob_html_iff [OF assms] ..
    also have "\<dots> = {joinpath docsdir ps | ps. is_document (Dir tree) ps
                \<and> \<not> startswith_any (hd ps) [''master'', ''main'', ''v'']}"
      by blast
    finally show ?thesis .
  qed
  have b: "set (get_html_filepaths tree docsdir version_in_dir latest)
              = {joinpath docsdir (version_in_dir # ps) | ps.
                   ps \<noteq> [] \<and> is_document (Dir tree) (version_in_dir # ps)}"
    if ne: "version_in_dir \<noteq> latest"
  proof (cases "map_of tree version_in_dir")
    case None
    then show ?thesis using ne by (simp add: get_html_filepaths_def is_document_def)
  next
    case (Some x)
    then have "(version_in_dir, x) \<in> set tree" by (rule map_of_SomeD)
    then have "wf_node x" using assms by (auto simp: list_all_iff)
    then have r: "\<And>ps. (ps \<in> set (rglob_html x)) = is_document x ps" by (rule rglob_html_iff)
    have "\<And>ps. (ps \<noteq> [] \<and> is_document (Dir tree) (version_in_dir # ps))
               = (ps \<in> set (rglob_html x))"
      unfolding r using Some by (auto simp: is_document_def)
    then have "{joinpath docsdir (version_in_dir # ps) | ps.
                   ps \<noteq> [] \<and> is_document (Dir tree) (version_in_dir # ps)}
        = (\<lambda>ps. joinpath docsdir (version_in_dir # ps)) ` set (rglob_html x)"
      by auto
    then show ?thesis using ne Some by (simp add: get_html_filepaths_def)
  qed
  from a b show ?thesis by blast
qed

theorem html_filepaths_of_version_witness:
  "wf_node (Dir [(''index.html'', File ''home''), (''versions.html'', File ''list''),
           (''master'', Dir [(''index.html'', File ''dev'')])])
   \<and> ''master'' \<noteq> ''v1.2.3'' \<and> valid_seg ''master''
   \<and> joinpath \<lparr>path_root = ''/'', path_segs = [''tmp'', ''abc'']\<rparr> [''master'', ''index.html'']
       \<in> set (get_html_filepaths
           [(''index.html'', File ''home''), (''versions.html'', File ''list''),
            (''master'', Dir [(''index.html'', File ''dev'')])]
           \<lparr>path_root = ''/'', path_segs = [''tmp'', ''abc'']\<rparr> ''master'' ''v1.2.3'')
   \<and> joinpath \<lparr>path_root = ''/'', path_segs = [''tmp'', ''abc'']\<rparr> [''versions.html'']
       \<notin> set (get_html_filepaths
           [(''index.html'', File ''home''), (''versions.html'', File ''list''),
            (''master'', Dir [(''index.html'', File ''dev'')])]
           \<lparr>path_root = ''/'', path_segs = [''tmp'', ''abc'']\<rparr> ''v1.2.3'' ''v1.2.3'')"
proof -
  let ?T = "[(''index.html'', File ''home''), (''versions.html'', File ''list''),
           (''master'', Dir [(''index.html'', File ''dev'')])]"
  let ?d = "\<lparr>path_root = ''/'', path_segs = [''tmp'', ''abc'']\<rparr>"
  have wf: "wf_node (Dir ?T)" by simp
  have ne: "''master'' \<noteq> ''v1.2.3''" by simp
  have vs: "valid_seg ''master''" by (simp add: valid_seg_def)
  note t = html_filepaths_of_version [OF wf, of ?d "''v1.2.3''" "''master''"]
  have doc: "is_document (Dir ?T) [''master'', ''index.html'']"
    by (simp add: is_document_def is_html_def suffix_def)
  have "joinpath ?d [''master'', ''index.html'']
          \<in> set (get_html_filepaths ?T ?d ''master'' ''v1.2.3'')"
    using t ne vs doc by blast
  moreover have "joinpath ?d [''versions.html'']
          \<notin> set (get_html_filepaths ?T ?d ''v1.2.3'' ''v1.2.3'')"
  proof
    assume "joinpath ?d [''versions.html''] \<in> set (get_html_filepaths ?T ?d ''v1.2.3'' ''v1.2.3'')"
    then obtain ps where e: "joinpath ?d [''versions.html''] = joinpath ?d ps"
      and n: "\<not> startswith_any (hd ps) [''master'', ''main'', ''v'']"
      using t by blast
    from e have "ps = [''versions.html'']" unfolding joinpath_inject by simp
    with n show False by (simp add: startswith_any_def startswith_def)
  qed
  ultimately show ?thesis using wf ne vs by blast
qed

section \<open>Existing and missing versions\<close>

text \<open>
  The loop keeps, in listing order, the directories named as the default branch (when
  it is included) or starting with \<open>v\<close>, until the cap is reached.
\<close>

lemma scan_dirs_take:
  "scan_dirs a tree ds ex =
     ex @ take (nat (if \<not> exclude_default_branch a then num_releases a + 1 else 0) - length ex)
            (filter (\<lambda>d. isdir tree d
               \<and> ((\<not> exclude_default_branch a \<and> d = default_branch_name a) \<or> startswith d ''v'')) ds)"
proof -
  define num where "num = (if \<not> exclude_default_branch a then num_releases a + 1 else 0)"
  define qual where "qual = (\<lambda>d. isdir tree d
               \<and> ((\<not> exclude_default_branch a \<and> d = default_branch_name a) \<or> startswith d ''v''))"
  have step: "scan_dirs a tree (d # ds) ex =
      (if int (length ex) < num \<and> qual d then scan_dirs a tree ds (ex @ [d])
       else scan_dirs a tree ds ex)" for d ds ex
    by (simp add: num_def qual_def Let_def)
  have "scan_dirs a tree ds ex = ex @ take (nat num - length ex) (filter qual ds)"
  proof (induction ds arbitrary: ex)
    case Nil
    then show ?case by simp
  next
    case (Cons d ds)
    show ?case
    proof (cases "int (length ex) < num")
      case True
      then have pos: "nat num - length ex = Suc (nat num - Suc (length ex))" by linarith
      show ?thesis
      proof (cases "qual d")
        case q: True
        have "scan_dirs a tree (d # ds) ex = scan_dirs a tree ds (ex @ [d])"
          using True q by (simp only: step if_True simp_thms)
        also have "\<dots> = (ex @ [d]) @ take (nat num - length (ex @ [d])) (filter qual ds)"
          by (rule Cons.IH)
        also have "\<dots> = ex @ take (nat num - length ex) (filter qual (d # ds))"
          using q pos by simp
        finally show ?thesis .
      next
        case q: False
        have "scan_dirs a tree (d # ds) ex = scan_dirs a tree ds ex"
          using q by (simp only: step simp_thms if_False)
        also have "\<dots> = ex @ take (nat num - length ex) (filter qual ds)"
          by (rule Cons.IH)
        finally show ?thesis using q by simp
      qed
    next
      case False
      then have z: "nat num - length ex = 0" by linarith
      have "scan_dirs a tree (d # ds) ex = scan_dirs a tree ds ex"
        using False by (simp only: step simp_thms if_False)
      also have "\<dots> = ex @ take (nat num - length ex) (filter qual ds)"
        by (rule Cons.IH)
      finally show ?thesis using z by simp
    qed
  qed
  then show ?thesis unfolding num_def qual_def .
qed

text \<open>
  Claim C5, as stated, fails: with the tracked set \<open>{master, v2}\<close> and the directories
  \<open>v1\<close> and \<open>master\<close>, the existing versions hold \<open>v1\<close>, which is not tracked, so the
  two lists together are not the tracked set.
\<close>

theorem versions_status_counterexample:
  "set (existing_versions (get_versions_status
          \<lparr>args = \<lparr>num_releases = 1, default_branch_name = ''master'', exclude_default_branch = False\<rparr>,
           existing_versions = [], non_existing_versions = [],
           last_n_versions = [''v2''], latest_version = ''v2''\<rparr>
          [(''v1'', Dir []), (''master'', Dir [])]))
   \<union> set (non_existing_versions (get_versions_status
          \<lparr>args = \<lparr>num_releases = 1, default_branch_name = ''master'', exclude_default_branch = False\<rparr>,
           existing_versions = [], non_existing_versions = [],
           last_n_versions = [''v2''], latest_version = ''v2''\<rparr>
          [(''v1'', Dir []), (''master'', Dir [])]))
   \<noteq> set (dropdown_versions_in_order
          \<lparr>args = \<lparr>num_releases = 1, default_branch_name = ''master'', exclude_default_branch = False\<rparr>,
           existing_versions = [], non_existing_versions = [],
           last_n_versions = [''v2''], latest_version = ''v2''\<rparr>)"
proof -
  let ?m = "\<lparr>args = \<lparr>num_releases = 1, default_branch_name = ''master'', exclude_default_branch = False\<rparr>,
           existing_versions = [], non_existing_versions = [],
           last_n_versions = [''v2''], latest_version = ''v2''\<rparr>"
  let ?t = "[(''v1'', Dir []), (''master'', Dir [])]"
  have e: "existing_versions (get_versions_status ?m ?t) = [''v1'', ''master'']"
    by (simp add: get_versions_status_def listdir_def isdir_def startswith_def Let_def)
  have d: "dropdown_versions_in_order ?m = [''master'', ''v2'']"
    by (simp add: dropdown_versions_in_order_def)
  have "''v1'' \<in> set (existing_versions (get_versions_status ?m ?t))
          \<union> set (non_existing_versions (get_versions_status ?m ?t))"
    unfolding e by simp
  moreover have "''v1'' \<notin> set (dropdown_versions_in_order ?m)"
    unfolding d by simp
  ultimately show ?thesis by metis
qed

text \<open>
  Claim C5, amended. After \<open>get_versions_status\<close> on a fresh manager, the missing
  versions are, as a set, the dropdown versions that are not among the existing ones;
  and when the default branch is included, the existing versions are the first
  \<open>num_releases + 1\<close> entries of \<open>docsdir\<close>, in listing order, that are directories
  named as the default branch or starting with \<open>v\<close>.
\<close>

theorem versions_status:
  assumes "VersionManagement_init a releases = Inr m"
  shows "set (non_existing_versions (get_versions_status m tree))
           = set (dropdown_versions_in_order m) - set (existing_versions (get_versions_status m tree))
       \<and> (\<not> exclude_default_branch a \<longrightarrow>
            existing_versions (get_versions_status m tree)
              = take (nat (num_releases a + 1))
                  (filter (\<lambda>d. isdir tree d \<and> (d = default_branch_name a \<or> startswith d ''v''))
                     (listdir tree)))"
proof -
  from assms have m: "args m = a" "existing_versions m = []"
    by (auto simp: VersionManagement_init_def split: list.splits)
  have 1: "set (non_existing_versions (get_versions_status m tree))
           = set (dropdown_versions_in_order m) - set (existing_versions (get_versions_status m tree))"
    by (auto simp: get_versions_status_def dropdown_versions_in_order_def Let_def)
  have 2: "existing_versions (get_versions_status m tree)
              = take (nat (num_releases a + 1))
                  (filter (\<lambda>d. isdir tree d \<and> (d = default_branch_name a \<or> startswith d ''v''))
                     (listdir tree))" if "\<not> exclude_default_branch a"
    using that m by (simp add: get_versions_status_def Let_def scan_dirs_take)
  from 1 2 show ?thesis by blast
qed

theorem versions_status_witness:
  "VersionManagement_init
      \<lparr>num_releases = 2, default_branch_name = ''master'', exclude_default_branch = False\<rparr>
      [''v1.2.4'', ''v1.2.3'']
    = Inr \<lparr>args = \<lparr>num_releases = 2, default_branch_name = ''master'', exclude_default_branch = False\<rparr>,
           existing_versions = [], non_existing_versions = [],
           last_n_versions = [''v1.2.4'', ''v1.2.3''], latest_version = ''v1.2.4''\<rparr>
   \<and> set (non_existing_versions (get_versions_status
          \<lparr>args = \<lparr>num_releases = 2, default_branch_name = ''master'', exclude_default_branch = False\<rparr>,
           existing_versions = [], non_existing_versions = [],
           last_n_versions = [''v1.2.4'', ''v1.2.3''], latest_version = ''v1.2.4''\<rparr>
          [(''index.html'', File ''home''), (''master'', Dir []), (''v1.2.3'', Dir [])])) = {''v1.2.4''}
   \<and> existing_versions (get_versions_status
          \<lparr>args = \<lparr>num_releases = 2, default_branch_name = ''master'', exclude_default_branch = False\<rparr>,
           existing_versions = [], non_existing_versions = [],
           last_n_versions = [''v1.2.4'', ''v1.2.3''], latest_version = ''v1.2.4''\<rparr>
          [(''index.html'', File ''home''), (''master'', Dir []), (''v1.2.3'', Dir [])])
       = [''master'', ''v1.2.3'']"
proof -
  have i: "VersionManagement_init
      \<lparr>num_releases = 2, default_branch_name = ''master'', exclude_default_branch = False\<rparr>
      [''v1.2.4'', ''v1.2.3'']
    = Inr \<lparr>args = \<lparr>num_releases = 2, default_branch_name = ''master'', exclude_default_branch = False\<rparr>,
           existing_versions = [], non_existing_versions = [],
           last_n_versions = [''v1.2.4'', ''v1.2.3''], latest_version = ''v1.2.4''\<rparr>"
    by (simp add: VersionManagement_init_def)
  let ?t = "[(''index.html'', File ''home''), (''master'', Dir []), (''v1.2.3'', Dir [])]"
  let ?a = "\<lparr>num_releases = 2, default_branch_name = ''master'', exclude_default_branch = False\<rparr>"
  let ?m = "\<lparr>args = ?a, existing_versions = [], non_existing_versions = [],
           last_n_versions = [''v1.2.4'', ''v1.2.3''], latest_version = ''v1.2.4''\<rparr>"
  note t = versions_status [OF i, of ?t]
  have n: "\<not> exclude_default_branch ?a" by simp
  have e: "existing_versions (get_versions_status ?m ?t) = [''master'', ''v1.2.3'']"
    using t n by (simp add: listdir_def isdir_def startswith_def eval_nat_numeral)
  have d: "dropdown_versions_in_order ?m = [''master'', ''v1.2.4'', ''v1.2.3'']"
    by (simp add: dropdown_versions_in_order_def)
  have "set (non_existing_versions (get_versions_status ?m ?t))
         = set [''master'', ''v1.2.4'', ''v1.2.3''] - set [''master'', ''v1.2.3'']"
    using t unfolding e d by blast
  also have "\<dots> = {''v1.2.4''}" by (simp add: insert_Diff_if)
  finally show ?thesis using i e by blast
qed

section \<open>Promotion\<close>

lemma map_of_remove_entry:
  "map_of (remove_entry n es) k = (if k = n then None else map_of es k)"
  by (induction es) (auto simp: remove_entry_def)

lemma map_of_replace_entry:
  "map_of (map (\<lambda>p. if fst p = v then (fst p, y) else p) es) k
     = (if k = v then (case map_of es v of None \<Rightarrow> None | Some z \<Rightarrow> Some y) else map_of es k)"
  by (induction es) auto

lemma isdir_iff: "isdir es n = (\<exists>sub. map_of es n = Some (Dir sub))"
  by (auto simp: isdir_def split: option.splits node.splits)

lemma isfile_iff: "isfile es n = (\<exists>c. map_of es n = Some (File c))"
  by (auto simp: isfile_def split: option.splits node.splits)

text \<open>Whatever is at the target name is removed before the move.\<close>

lemma cleared_target:
  "map_of (if isfile tree c then remove_entry c tree
           else if isdir tree c then remove_entry c tree else tree) k
     = (if k = c then None else map_of tree k)"
proof (cases "map_of tree c")
  case None
  then show ?thesis by (simp add: isfile_iff isdir_iff)
next
  case (Some x)
  then show ?thesis by (cases x) (simp_all add: isfile_iff isdir_iff map_of_remove_entry)
qed

lemma shutil_move_ok:
  assumes "map_of tree c = None" and "map_of tree v = Some (Dir ves)" and "map_of ves c = Some x"
  shows "\<exists>tree2. shutil_move v c tree = Inr tree2
           \<and> (\<forall>k. map_of tree2 k = (if k = v then Some (Dir (remove_entry c ves))
                                     else if k = c then Some x else map_of tree k))"
proof -
  let ?t = "map (\<lambda>p. if fst p = v then (fst p, Dir (remove_entry c ves)) else p) tree @ [(c, x)]"
  have "shutil_move v c tree = Inr ?t" using assms by (simp add: shutil_move_def)
  moreover have "map_of ?t k = (if k = v then Some (Dir (remove_entry c ves))
                                     else if k = c then Some x else map_of tree k)" for k
    using assms by (simp add: map_of_replace_entry map_add_def split: option.splits)
  ultimately show ?thesis by blast
qed

lemma move_contents_latest_fails:
  "v \<in> set cs \<Longrightarrow> fst (move_contents v cs tree) \<noteq> None"
proof (induction cs arbitrary: tree)
  case Nil
  then show ?case by simp
next
  case (Cons c cs)
  let ?t1 = "if isfile tree c then remove_entry c tree
             else if isdir tree c then remove_entry c tree else tree"
  show ?case
  proof (cases "shutil_move v c ?t1")
    case (Inl e)
    then show ?thesis by (simp add: Let_def)
  next
    case (Inr t2)
    have "c \<noteq> v"
    proof
      assume "c = v"
      then have "map_of ?t1 v = None" using cleared_target [of tree c v] by simp
      then have "\<exists>e. shutil_move v v ?t1 = Inl e" by (simp add: shutil_move_def)
      with Inr \<open>c = v\<close> show False by simp
    qed
    with Cons.prems have "v \<in> set cs" by simp
    from Cons.IH [OF this] Inr show ?thesis by (simp add: Let_def)
  qed
qed

lemma move_contents_ok:
  assumes "map_of tree v = Some (Dir ves)" and "distinct cs" and "set cs \<subseteq> fst ` set ves"
    and "v \<notin> set cs"
  shows "\<exists>tree'. move_contents v cs tree = (None, tree')
           \<and> map_of tree' v = Some (Dir (filter (\<lambda>p. fst p \<notin> set cs) ves))
           \<and> (\<forall>c\<in>set cs. map_of tree' c = map_of ves c)
           \<and> (\<forall>n. n \<notin> set cs \<longrightarrow> n \<noteq> v \<longrightarrow> map_of tree' n = map_of tree n)"
  using assms
proof (induction cs arbitrary: tree ves)
  case Nil
  then show ?case by simp
next
  case (Cons c cs)
  let ?t1 = "if isfile tree c then remove_entry c tree
             else if isdir tree c then remove_entry c tree else tree"
  have cv: "c \<noteq> v" and ccs: "c \<notin> set cs" using Cons.prems by auto
  have t1: "\<And>k. map_of ?t1 k = (if k = c then None else map_of tree k)"
    by (rule cleared_target)
  obtain x where x: "map_of ves c = Some x"
    using Cons.prems(3) by (metis list.set_intros(1) map_of_eq_None_iff not_None_eq subsetD)
  have "map_of ?t1 c = None" "map_of ?t1 v = Some (Dir ves)"
    using t1 cv Cons.prems(1) by simp_all
  from shutil_move_ok [OF this x] obtain tree2 where
    m: "shutil_move v c ?t1 = Inr tree2" and
    t2: "\<And>k. map_of tree2 k = (if k = v then Some (Dir (remove_entry c ves))
                                     else if k = c then Some x else map_of ?t1 k)"
    by blast
  have step: "move_contents v (c # cs) tree = move_contents v cs tree2"
    using m by (simp add: Let_def)
  have p1: "map_of tree2 v = Some (Dir (remove_entry c ves))" using t2 by simp
  have p2: "distinct cs" using Cons.prems by simp
  have p3: "set cs \<subseteq> fst ` set (remove_entry c ves)"
  proof
    fix k assume k: "k \<in> set cs"
    then have "k \<in> fst ` set ves" using Cons.prems(3) by auto
    then obtain y where "(k, y) \<in> set ves" by auto
    moreover have "k \<noteq> c" using k ccs by blast
    ultimately have "(k, y) \<in> set (remove_entry c ves)" by (simp add: remove_entry_def)
    then show "k \<in> fst ` set (remove_entry c ves)" by force
  qed
  have p4: "v \<notin> set cs" using Cons.prems by simp
  from Cons.IH [OF p1 p2 p3 p4] obtain tree' where
    r: "move_contents v cs tree2 = (None, tree')"
    and rv: "map_of tree' v = Some (Dir (filter (\<lambda>p. fst p \<notin> set cs) (remove_entry c ves)))"
    and rc: "\<forall>c'\<in>set cs. map_of tree' c' = map_of (remove_entry c ves) c'"
    and rn: "\<forall>n. n \<notin> set cs \<longrightarrow> n \<noteq> v \<longrightarrow> map_of tree' n = map_of tree2 n"
    by blast
  have a: "map_of tree' v = Some (Dir (filter (\<lambda>p. fst p \<notin> set (c # cs)) ves))"
  proof -
    have "filter (\<lambda>p. fst p \<notin> set cs) (remove_entry c ves) = filter (\<lambda>p. fst p \<notin> set (c # cs)) ves"
      by (auto simp: remove_entry_def intro: filter_cong)
    with rv show ?thesis by simp
  qed
  have b: "\<forall>c'\<in>set (c # cs). map_of tree' c' = map_of ves c'"
  proof
    fix c' assume "c' \<in> set (c # cs)"
    then consider "c' = c" | "c' \<in> set cs" "c' \<noteq> c" using ccs by auto
    then show "map_of tree' c' = map_of ves c'"
    proof cases
      case 1
      then have "map_of tree' c' = map_of tree2 c" using rn ccs cv by simp
      also have "\<dots> = Some x" using t2 cv by simp
      finally show ?thesis using x 1 by simp
    next
      case 2
      then have "map_of tree' c' = map_of (remove_entry c ves) c'" using rc by simp
      also have "\<dots> = map_of ves c'" using 2 by (simp add: map_of_remove_entry)
      finally show ?thesis .
    qed
  qed
  have c: "\<forall>n. n \<notin> set (c # cs) \<longrightarrow> n \<noteq> v \<longrightarrow> map_of tree' n = map_of tree n"
  proof (intro allI impI)
    fix n assume n: "n \<notin> set (c # cs)" "n \<noteq> v"
    then have "map_of tree' n = map_of tree2 n" using rn by simp
    also have "\<dots> = map_of ?t1 n" using t2 n by simp
    also have "\<dots> = map_of tree n" using t1 n by simp
    finally show "map_of tree' n = map_of tree n" .
  qed
  from step r a b c show ?case by simp
qed

text \<open>
  Claim C6. When \<open>docsdir/latest\<close> is a directory (with distinct entry names, the
  version being a single path component), \<open>move_latest_version_to_root\<close> returns
  without an exception exactly when no entry of that directory has the version's own
  name; and when it returns so, every entry formerly in \<open>docsdir/latest\<close> is an entry
  of \<open>docsdir\<close> under the same name (whatever was there before is replaced), and
  \<open>docsdir/latest\<close> is gone.
\<close>

theorem promotion_moves_entries:
  assumes "valid_seg (latest_version m)"
    and "map_of (docs w) (latest_version m) = Some (Dir ves)"
    and "distinct (map fst ves)"
  shows "(fst (move_latest_version_to_root m w) = None) = (latest_version m \<notin> set (listdir ves))
       \<and> (fst (move_latest_version_to_root m w) = None \<longrightarrow>
            (\<forall>n x. map_of ves n = Some x \<longrightarrow>
                     map_of (docs (snd (move_latest_version_to_root m w))) n = Some x)
            \<and> map_of (docs (snd (move_latest_version_to_root m w))) (latest_version m) = None)"
proof (cases "latest_version m \<in> set (listdir ves)")
  case True
  from move_contents_latest_fails [OF this, of "docs w"]
  obtain e t where "move_contents (latest_version m) (listdir ves) (docs w) = (Some e, t)"
    by (cases "move_contents (latest_version m) (listdir ves) (docs w)") auto
  then have "fst (move_latest_version_to_root m w) = Some e"
    using assms(2) by (simp add: move_latest_version_to_root_def)
  with True show ?thesis by simp
next
  case False
  let ?v = "latest_version m"
  have "distinct (listdir ves)" "set (listdir ves) \<subseteq> fst ` set ves"
    using assms(3) by (simp_all add: listdir_def)
  from move_contents_ok [OF assms(2) this False] obtain tree' where
    r: "move_contents ?v (listdir ves) (docs w) = (None, tree')"
    and rv: "map_of tree' ?v = Some (Dir (filter (\<lambda>p. fst p \<notin> set (listdir ves)) ves))"
    and rc: "\<forall>c\<in>set (listdir ves). map_of tree' c = map_of ves c"
    by blast
  have d: "isdir tree' ?v" using rv by (simp add: isdir_iff)
  have res: "move_latest_version_to_root m w = (None, w\<lparr>docs := remove_entry ?v tree'\<rparr>)"
    using assms(2) r d by (simp add: move_latest_version_to_root_def)
  have "map_of (remove_entry ?v tree') n = Some x" if "map_of ves n = Some x" for n x
  proof -
    from that have "(n, x) \<in> set ves" by (rule map_of_SomeD)
    then have n: "n \<in> set (listdir ves)" by (force simp: listdir_def)
    then have "n \<noteq> ?v" using False by blast
    then show ?thesis using rc n that by (simp add: map_of_remove_entry)
  qed
  moreover have "map_of (remove_entry ?v tree') ?v = None"
    by (simp add: map_of_remove_entry)
  ultimately show ?thesis using res False by simp
qed

theorem promotion_moves_entries_witness:
  "valid_seg ''v2''
   \<and> map_of [(''index.html'', File ''old''),
             (''v2'', Dir [(''index.html'', File ''new''), (''api'', Dir [(''index.html'', File ''a'')])]),
             (''master'', Dir [(''index.html'', File ''dev'')])] ''v2''
       = Some (Dir [(''index.html'', File ''new''), (''api'', Dir [(''index.html'', File ''a'')])])
   \<and> distinct (map fst [(''index.html'', File ''new''), (''api'', Dir [(''index.html'', File ''a'')])])
   \<and> fst (move_latest_version_to_root
        \<lparr>args = \<lparr>num_releases = 1, default_branch_name = ''master'', exclude_default_branch = False\<rparr>,
         existing_versions = [], non_existing_versions = [],
         last_n_versions = [''v2''], latest_version = ''v2''\<rparr>
        \<lparr>docs = [(''index.html'', File ''old''),
             (''v2'', Dir [(''index.html'', File ''new''), (''api'', Dir [(''index.html'', File ''a'')])]),
             (''master'', Dir [(''index.html'', File ''dev'')])],
         worktrees = [], log = []\<rparr>) = None
   \<and> map_of (docs (snd (move_latest_version_to_root
        \<lparr>args = \<lparr>num_releases = 1, default_branch_name = ''master'', exclude_default_branch = False\<rparr>,
         existing_versions = [], non_existing_versions = [],
         last_n_versions = [''v2''], latest_version = ''v2''\<rparr>
        \<lparr>docs = [(''index.html'', File ''old''),
             (''v2'', Dir [(''index.html'', File ''new''), (''api'', Dir [(''index.html'', File ''a'')])]),
             (''master'', Dir [(''index.html'', File ''dev'')])],
         worktrees = [], log = []\<rparr>))) ''index.html'' = Some (File ''new'')
   \<and> map_of (docs (snd (move_latest_version_to_root
        \<lparr>args = \<lparr>num_releases = 1, default_branch_name = ''master'', exclude_default_branch = False\<rparr>,
         existing_versions = [], non_existing_versions = [],
         last_n_versions = [''v2''], latest_version = ''v2''\<rparr>
        \<lparr>docs = [(''index.html'', File ''old''),
             (''v2'', Dir [(''index.html'', File ''new''), (''api'', Dir [(''index.html'', File ''a'')])]),
             (''master'', Dir [(''index.html'', File ''dev'')])],
         worktrees = [], log = []\<rparr>))) ''v2'' = None"
proof -
  let ?m = "\<lparr>args = \<lparr>num_releases = 1, default_branch_name = ''master'', exclude_default_branch = False\<rparr>,
         existing_versions = [], non_existing_versions = [],
         last_n_versions = [''v2''], latest_version = ''v2''\<rparr>"
  let ?ves = "[(''index.html'', File ''new''), (''api'', Dir [(''index.html'', File ''a'')])]"
  let ?w = "\<lparr>docs = [(''index.html'', File ''old''), (''v2'', Dir ?ves),
             (''master'', Dir [(''index.html'', File ''dev'')])],
         worktrees = [], log = []\<rparr>"
  have h1: "valid_seg (latest_version ?m)" by (simp add: valid_seg_def)
  have h2: "map_of (docs ?w) (latest_version ?m) = Some (Dir ?ves)" by simp
  have h3: "distinct (map fst ?ves)" by simp
  note t = promotion_moves_entries [OF h1 h2 h3]
  have n: "latest_version ?m \<notin> set (listdir ?ves)" by (simp add: listdir_def)
  have e: "map_of ?ves ''index.html'' = Some (File ''new'')" by simp
  from t n have f: "fst (move_latest_version_to_root ?m ?w) = None" by blast
  with t e have "map_of (docs (snd (move_latest_version_to_root ?m ?w))) ''index.html'' = Some (File ''new'')"
    by blast
  moreover from t f have "map_of (docs (snd (move_latest_version_to_root ?m ?w))) (latest_version ?m) = None"
    by blast
  ultimately show ?thesis using f h1 h2 h3 by simp
qed

text \<open>
  Claim C7. When \<open>docsdir/latest\<close> is not a directory (the version being a single path
  component), \<open>move_latest_version_to_root\<close> logs the warning and returns without an
  exception; the tree and the worktrees are as before.
\<close>

theorem promotion_skipped_when_latest_missing:
  assumes "valid_seg (latest_version m)" and "\<not> isdir (docs w) (latest_version m)"
  shows "move_latest_version_to_root m w
           = (None, w\<lparr>log := log w @ [LatestMissingWarning (latest_version m)]\<rparr>)
       \<and> docs (snd (move_latest_version_to_root m w)) = docs w"
proof -
  have "move_latest_version_to_root m w
           = (None, w\<lparr>log := log w @ [LatestMissingWarning (latest_version m)]\<rparr>)"
    using assms(2)
    by (auto simp: move_latest_version_to_root_def isdir_iff split: option.splits node.splits)
  then show ?thesis by simp
qed

theorem promotion_skipped_when_latest_missing_witness:
  "valid_seg ''v3''
   \<and> \<not> isdir [(''index.html'', File ''old''), (''master'', Dir [(''index.html'', File ''dev'')])] ''v3''
   \<and> move_latest_version_to_root
        \<lparr>args = \<lparr>num_releases = 1, default_branch_name = ''master'', exclude_default_branch = False\<rparr>,
         existing_versions = [], non_existing_versions = [],
         last_n_versions = [''v3''], latest_version = ''v3''\<rparr>
        \<lparr>docs = [(''index.html'', File ''old''), (''master'', Dir [(''index.html'', File ''dev'')])],
         worktrees = [], log = []\<rparr>
      = (None,
         \<lparr>docs = [(''index.html'', File ''old''), (''master'', Dir [(''index.html'', File ''dev'')])],
          worktrees = [], log = [LatestMissingWarning ''v3'']\<rparr>)"
proof -
  let ?m = "\<lparr>args = \<lparr>num_releases = 1, default_branch_name = ''master'', exclude_default_branch = False\<rparr>,
         existing_versions = [], non_existing_versions = [],
         last_n_versions = [''v3''], latest_version = ''v3''\<rparr>"
  let ?w = "\<lparr>docs = [(''index.html'', File ''old''), (''master'', Dir [(''index.html'', File ''dev'')])],
         worktrees = [], log = []\<rparr>"
  have h1: "valid_seg (latest_version ?m)" by (simp add: valid_seg_def)
  have h2: "\<not> isdir (docs ?w) (latest_version ?m)" by (simp add: isdir_def)
  from promotion_skipped_when_latest_missing [OF h1 h2] h1 h2 show ?thesis by simp
qed

section \<open>Failures while building\<close>

lemma build_versions_append:
  "build_versions (pre @ post) w =
     (case build_versions pre w of
        (Some e, w1) \<Rightarrow> (Some e, w1)
      | (None, w1) \<Rightarrow> build_versions post w1)"
proof (induction pre arbitrary: w)
  case Nil
  then show ?case by simp
next
  case (Cons r pre)
  obtain v c where r: "r = (v, c)" by (cases r)
  show ?case
  proof (cases "build_version c v w")
    case (Pair err w1)
    then show ?thesis using Cons.IH [of w1] r by (cases err) simp_all
  qed
qed

text \<open>After the cleanup, the slot of the version is taken exactly when a file has its name.\<close>

lemma slot_after_cleanup:
  "(map_of (cleanup_version_directory tree version) version \<noteq> None) = isfile tree version"
proof (cases "map_of tree version")
  case None
  then show ?thesis by (simp add: cleanup_version_directory_def isdir_iff isfile_iff)
next
  case (Some x)
  then show ?thesis
    by (cases x) (simp_all add: cleanup_version_directory_def isdir_iff isfile_iff map_of_remove_entry)
qed

lemma build_version_raises:
  assumes "\<not> has_docs_dir c \<or> \<not> has_makedoc c \<or> \<not> exec_succeeds c \<or> built c = None
           \<or> isfile (docs w) version"
  shows "\<exists>w2. build_version c version w
           = (Some (if \<not> has_docs_dir c then FileNotFoundError
                    else if \<not> has_makedoc c then AssertionError
                    else if \<not> exec_succeeds c then CalledProcessError
                    else if built c = None then FileNotFoundError
                    else FileExistsError), w2)
         \<and> log w2 = log w @ [AskedToRebuild version, CreatingWorktree version]
         \<and> docs w2 = (if has_docs_dir c then cleanup_version_directory (docs w) version
                       else docs w)"
proof (cases "has_docs_dir c")
  case False
  then show ?thesis by (simp add: build_version_def Let_def)
next
  case d: True
  show ?thesis
  proof (cases "has_makedoc c \<and> exec_succeeds c")
    case False
    then show ?thesis using d
      by (auto simp: build_version_def build_local_only_def Let_def)
  next
    case True
    then have b: "build_local_only c = None" by (simp add: build_local_only_def)
    show ?thesis
    proof (cases "built c")
      case None
      then show ?thesis using d True b
        by (simp add: build_version_def recreate_version_directory_def Let_def)
    next
      case (Some es)
      then have "isfile (docs w) version" using assms d True by simp
      then have "map_of (cleanup_version_directory (docs w) version) version \<noteq> None"
        by (simp only: slot_after_cleanup)
      then show ?thesis using d True b Some
        by (simp add: build_version_def recreate_version_directory_def Let_def)
    qed
  qed
qed

lemma build_version_succeeds:
  assumes "has_docs_dir c" and "has_makedoc c" and "exec_succeeds c" and "built c = Some es"
    and "\<not> isfile (docs w) version"
  shows "\<exists>w2. build_version c version w = (None, w2)
           \<and> docs w2 = cleanup_version_directory (docs w) version @ [(version, Dir es)]"
proof -
  have "map_of (cleanup_version_directory (docs w) version) version = None"
    using assms(5) slot_after_cleanup [of "docs w" version] by simp
  then show ?thesis using assms
    by (simp add: build_version_def build_local_only_def recreate_version_directory_def Let_def)
qed

text \<open>
  Claim C4, as stated, fails: when the build of \<open>v1\<close> fails, \<open>build_versions\<close> raises
  and \<open>v2\<close>, next in the list, is never asked for nor materialised, although its build
  alone succeeds.
\<close>

theorem failure_stops_the_loop_counterexample:
  "fst (build_versions
     [(''v1'', \<lparr>worktree_added = True, has_docs_dir = True, has_makedoc = True,
               exec_succeeds = False, built = None, worktree_removed = False\<rparr>),
      (''v2'', \<lparr>worktree_added = True, has_docs_dir = True, has_makedoc = True,
               exec_succeeds = True, built = Some [(''index.html'', File ''two'')],
               worktree_removed = False\<rparr>)]
     \<lparr>docs = [], worktrees = [], log = []\<rparr>) = Some CalledProcessError
   \<and> AskedToRebuild ''v2'' \<notin> set (log (snd (build_versions
     [(''v1'', \<lparr>worktree_added = True, has_docs_dir = True, has_makedoc = True,
               exec_succeeds = False, built = None, worktree_removed = False\<rparr>),
      (''v2'', \<lparr>worktree_added = True, has_docs_dir = True, has_makedoc = True,
               exec_succeeds = True, built = Some [(''index.html'', File ''two'')],
               worktree_removed = False\<rparr>)]
     \<lparr>docs = [], worktrees = [], log = []\<rparr>)))
   \<and> map_of (docs (snd (build_versions
     [(''v1'', \<lparr>worktree_added = True, has_docs_dir = True, has_makedoc = True,
               exec_succeeds = False, built = None, worktree_removed = False\<rparr>),
      (''v2'', \<lparr>worktree_added = True, has_docs_dir = True, has_makedoc = True,
               exec_succeeds = True, built = Some [(''index.html'', File ''two'')],
               worktree_removed = False\<rparr>)]
     \<lparr>docs = [], worktrees = [], log = []\<rparr>))) ''v2'' = None
   \<and> build_versions
     [(''v2'', \<lparr>worktree_added = True, has_docs_dir = True, has_makedoc = True,
               exec_succeeds = True, built = Some [(''index.html'', File ''two'')],
               worktree_removed = False\<rparr>)]
     \<lparr>docs = [], worktrees = [], log = []\<rparr>
     = (None, \<lparr>docs = [(''v2'', Dir [(''index.html'', File ''two'')])], worktrees = [''v2''],
               log = [AskedToRebuild ''v2'', CreatingWorktree ''v2'']\<rparr>)"
  by (simp add: build_version_def build_local_only_def cleanup_version_directory_def
      recreate_version_directory_def isdir_def Let_def)

text \<open>
  Claim C4, amended. When the rounds before a version go through and something fails
  in the round of that version (the worktree has no \<open>docs\<close> directory, \<open>makedoc.sh\<close>
  is missing, \<open>python exec.py\<close> ends with a non-zero status, the build directory is
  missing, or a file has the name of the version's directory), \<open>build_versions\<close>
  raises the exception of the first step that failed. The log ends with the two
  entries of the failing round and the tree is the one that round left (the version's
  old directory removed, if the round got that far): whatever follows in the list is
  not processed, and nothing is tried again.
\<close>

theorem failure_stops_the_loop:
  assumes "build_versions pre w = (None, w1)"
    and "\<not> has_docs_dir c \<or> \<not> has_makedoc c \<or> \<not> exec_succeeds c \<or> built c = None
         \<or> isfile (docs w1) version"
  shows "\<exists>w2. build_versions (pre @ (version, c) # post) w
           = (Some (if \<not> has_docs_dir c then FileNotFoundError
                    else if \<not> has_makedoc c then AssertionError
                    else if \<not> exec_succeeds c then CalledProcessError
                    else if built c = None then FileNotFoundError
                    else FileExistsError), w2)
         \<and> log w2 = log w1 @ [AskedToRebuild version, CreatingWorktree version]
         \<and> docs w2 = (if has_docs_dir c then cleanup_version_directory (docs w1) version
                       else docs w1)"
proof -
  from build_version_raises [OF assms(2)] obtain w2 where
    r: "build_version c version w1
           = (Some (if \<not> has_docs_dir c then FileNotFoundError
                    else if \<not> has_makedoc c then AssertionError
                    else if \<not> exec_succeeds c then CalledProcessError
                    else if built c = None then FileNotFoundError
                    else FileExistsError), w2)"
    and l: "log w2 = log w1 @ [AskedToRebuild version, CreatingWorktree version]"
    and d: "docs w2 = (if has_docs_dir c then cleanup_version_directory (docs w1) version
                       else docs w1)"
    by blast
  have "build_versions (pre @ (version, c) # post) w
          = (Some (if \<not> has_docs_dir c then FileNotFoundError
                    else if \<not> has_makedoc c then AssertionError
                    else if \<not> exec_succeeds c then CalledProcessError
                    else if built c = None then FileNotFoundError
                    else FileExistsError), w2)"
    unfolding build_versions_append assms(1) using r by simp
  with l d show ?thesis by blast
qed

theorem failure_stops_the_loop_witness:
  "build_versions
     [(''v0'', \<lparr>worktree_added = True, has_docs_dir = True, has_makedoc = True,
               exec_succeeds = True, built = Some [(''index.html'', File ''zero'')],
               worktree_removed = False\<rparr>)]
     \<lparr>docs = [], worktrees = [], log = []\<rparr>
     = (None, \<lparr>docs = [(''v0'', Dir [(''index.html'', File ''zero'')])], worktrees = [''v0''],
               log = [AskedToRebuild ''v0'', CreatingWorktree ''v0'']\<rparr>)
   \<and> fst (build_versions
     [(''v0'', \<lparr>worktree_added = True, has_docs_dir = True, has_makedoc = True,
               exec_succeeds = True, built = Some [(''index.html'', File ''zero'')],
               worktree_removed = False\<rparr>),
      (''v1'', \<lparr>worktree_added = True, has_docs_dir = True, has_makedoc = False,
               exec_succeeds = True, built = None, worktree_removed = False\<rparr>),
      (''v2'', \<lparr>worktree_added = True, has_docs_dir = True, has_makedoc = True,
               exec_succeeds = True, built = Some [(''index.html'', File ''two'')],
               worktree_removed = False\<rparr>)]
     \<lparr>docs = [], worktrees = [], log = []\<rparr>) = Some AssertionError
   \<and> log (snd (build_versions
     [(''v0'', \<lparr>worktree_added = True, has_docs_dir = True, has_makedoc = True,
               exec_succeeds = True, built = Some [(''index.html'', File ''zero'')],
               worktree_removed = False\<rparr>),
      (''v1'', \<lparr>worktree_added = True, has_docs_dir = True, has_makedoc = False,
               exec_succeeds = True, built = None, worktree_removed = False\<rparr>),
      (''v2'', \<lparr>worktree_added = True, has_docs_dir = True, has_makedoc = True,
               exec_succeeds = True, built = Some [(''index.html'', File ''two'')],
               worktree_removed = False\<rparr>)]
     \<lparr>docs = [], worktrees = [], log = []\<rparr>))
     = [AskedToRebuild ''v0'', CreatingWorktree ''v0'',
        AskedToRebuild ''v1'', CreatingWorktree ''v1'']
   \<and> docs (snd (build_versions
     [(''v0'', \<lparr>worktree_added = True, has_docs_dir = True, has_makedoc = True,
               exec_succeeds = True, built = Some [(''index.html'', File ''zero'')],
               worktree_removed = False\<rparr>),
      (''v1'', \<lparr>worktree_added = True, has_docs_dir = True, has_makedoc = False,
               exec_succeeds = True, built = None, worktree_removed = False\<rparr>),
      (''v2'', \<lparr>worktree_added = True, has_docs_dir = True, has_makedoc = True,
               exec_succeeds = True, built = Some [(''index.html'', File ''two'')],
               worktree_removed = False\<rparr>)]
     \<lparr>docs = [], worktrees = [], log = []\<rparr>))
     = [(''v0'', Dir [(''index.html'', File ''zero'')])]"
proof -
  let ?c0 = "\<lparr>worktree_added = True, has_docs_dir = True, has_makedoc = True,
               exec_succeeds = True, built = Some [(''index.html'', File ''zero'')],
               worktree_removed = False\<rparr>"
  let ?c1 = "\<lparr>worktree_added = True, has_docs_dir = True, has_makedoc = False,
               exec_succeeds = True, built = None, worktree_removed = False\<rparr>"
  let ?c2 = "\<lparr>worktree_added = True, has_docs_dir = True, has_makedoc = True,
               exec_succeeds = True, built = Some [(''index.html'', File ''two'')],
               worktree_removed = False\<rparr>"
  let ?w1 = "\<lparr>docs = [(''v0'', Dir [(''index.html'', File ''zero'')])], worktrees = [''v0''],
               log = [AskedToRebuild ''v0'', CreatingWorktree ''v0'']\<rparr>"
  have a: "build_versions [(''v0'', ?c0)] \<lparr>docs = [], worktrees = [], log = []\<rparr> = (None, ?w1)"
    by (simp add: build_version_def build_local_only_def cleanup_version_directory_def
      recreate_version_directory_def isdir_def Let_def)
  have b: "\<not> has_docs_dir ?c1 \<or> \<not> has_makedoc ?c1 \<or> \<not> exec_succeeds ?c1 \<or> built ?c1 = None
         \<or> isfile (docs ?w1) ''v1''"
    by simp
  from failure_stops_the_loop [OF a b, of "[(''v2'', ?c2)]"] obtain w2 where
    r: "build_versions ([(''v0'', ?c0)] @ (''v1'', ?c1) # [(''v2'', ?c2)])
          \<lparr>docs = [], worktrees = [], log = []\<rparr> = (Some AssertionError, w2)"
    and l: "log w2 = log ?w1 @ [AskedToRebuild ''v1'', CreatingWorktree ''v1'']"
    and d: "docs w2 = cleanup_version_directory (docs ?w1) ''v1''"
    by auto
  have e: "[(''v0'', ?c0)] @ (''v1'', ?c1) # [(''v2'', ?c2)]
             = [(''v0'', ?c0), (''v1'', ?c1), (''v2'', ?c2)]" by simp
  from r l d a show ?thesis
    unfolding e by (simp add: cleanup_version_directory_def isdir_def)
qed

section \<open>Links between versions\<close>

text \<open>The value built for another version, for a page \<open>index.html\<close>, before the trim.\<close>

lemma str_join_snoc:
  "str_join ''/'' (ps @ [f]) = concat (map (\<lambda>s. s @ ''/'') ps) @ f"
proof (induction ps)
  case Nil
  then show ?case by simp
next
  case (Cons p ps)
  then show ?case by (simp add: str_join_Cons)
qed

lemma valid_index: "valid_seg ''index.html''"
  by (simp add: valid_seg_def)

lemma collapsed_value:
  assumes ps: "\<forall>s\<in>set ps. valid_seg s" and pre: "\<forall>s\<in>set pre. valid_seg s"
    and n: "pre = [] \<longrightarrow> 0 < n"
  shows "str_replace ''//'' ''/''
           (concat (replicate n ''../'') @ (if pre = [] then [] else hd pre) @ ''/''
              @ str_join ''/'' (ps @ [''index.html'']))
         = concat (replicate n ''../'') @ concat (map (\<lambda>s. s @ ''/'') (take 1 pre @ ps))
             @ ''index.html''"
proof -
  let ?rel = "str_join ''/'' (ps @ [''index.html''])"
  have v: "\<forall>s\<in>set (ps @ [''index.html'']). valid_seg s" using ps valid_index by simp
  have rel: "replace_scan ''//'' ''/'' ?rel = ?rel" using v by (rule replace_scan_str_join)
  have hd_rel: "?rel = [] \<or> hd ?rel \<noteq> CHR ''/''"
    using str_join_head [OF _ v] by simp
  show ?thesis
  proof (cases pre)
    case Nil
    then have "0 < n" using n by simp
    from replace_scan_ups_slash [OF this, of ?rel] rel Nil
    show ?thesis by (simp add: str_replace_def str_join_snoc)
  next
    case (Cons v vs)
    then have vv: "valid_seg v" using pre by simp
    then have nv: "CHR ''/'' \<notin> set v" by (simp add: valid_seg_def)
    have hv: "v \<noteq> [] \<and> hd v \<noteq> CHR ''/''"
      using str_join_head [of "[v]"] vv by simp
    let ?t = "v @ CHR ''/'' # ?rel"
    have "?t = [] \<or> hd ?t \<noteq> CHR ''/''" using hv by simp
    from replace_scan_ups [OF this, of n]
    have "replace_scan ''//'' ''/'' (concat (replicate n ''../'') @ ?t)
            = concat (replicate n ''../'') @ replace_scan ''//'' ''/'' ?t" .
    also have "replace_scan ''//'' ''/'' ?t = v @ replace_scan ''//'' ''/'' (CHR ''/'' # ?rel)"
      by (rule replace_scan_no_slash [OF nv])
    also have "replace_scan ''//'' ''/'' (CHR ''/'' # ?rel) = CHR ''/'' # ?rel"
      using replace_scan_one_slash [OF hd_rel] rel by simp
    finally show ?thesis using Cons by (simp add: str_replace_def str_join_snoc)
  qed
qed

lemma rstrip_keep: "s = [] \<or> last s \<notin> set cs \<Longrightarrow> rstrip cs s = s"
  by (cases s rule: rev_cases) (auto simp: rstrip_def)

lemma rstrip_run: "set run \<subseteq> set cs \<Longrightarrow> rstrip cs (s @ run) = rstrip cs s"
proof -
  assume a: "set run \<subseteq> set cs"
  have "dropWhile (\<lambda>c. c \<in> set cs) (rev run @ rev s) = dropWhile (\<lambda>c. c \<in> set cs) (rev s)"
    by (rule dropWhile_append2) (use a in auto)
  then show ?thesis by (simp add: rstrip_def)
qed

lemma trim_index:
  assumes "x = [] \<or> last x = CHR ''/''"
  shows "rstrip ''.html'' (rstrip ''index.html'' (x @ ''index.html'')) = x"
proof -
  have "rstrip ''index.html'' (x @ ''index.html'') = rstrip ''index.html'' x"
    by (rule rstrip_run) simp
  also have "\<dots> = x" using assms by (intro rstrip_keep) auto
  finally have "rstrip ''index.html'' (x @ ''index.html'') = x" .
  moreover have "rstrip ''.html'' x = x" using assms by (intro rstrip_keep) auto
  ultimately show ?thesis by simp
qed

lemma split_on_nonempty: "split_on c s \<noteq> []"
  by (induction s) (auto split: list.splits)

lemma split_on_segment:
  "c \<notin> set s \<Longrightarrow> split_on c (s @ c # t) = s # split_on c t"
  by (induction s) auto

lemma split_on_segments:
  "\<forall>s\<in>set segs. c \<notin> set s \<Longrightarrow>
     split_on c (concat (map (\<lambda>s. s @ [c]) segs)) = segs @ [[]]"
  by (induction segs) (simp_all add: split_on_segment)

lemma follow_ups:
  "length cur \<le> n \<Longrightarrow> follow cur (replicate n ''..'' @ rest) = follow [] rest"
proof (induction n arbitrary: cur)
  case 0
  then show ?case by simp
next
  case (Suc n)
  then have "length (butlast cur) \<le> n" by simp
  from Suc.IH [OF this] show ?case by simp
qed

lemma follow_segments:
  "\<forall>s\<in>set segs. valid_seg s \<Longrightarrow> follow cur (segs @ rest) = follow (cur @ segs) rest"
proof (induction segs arbitrary: cur)
  case Nil
  then show ?case by simp
next
  case (Cons s segs)
  then have "s \<noteq> ''..''" "s \<noteq> []" "s \<noteq> ''.''" by (auto simp: valid_seg_def)
  then show ?case using Cons by simp
qed

text \<open>
  The link that a page \<open>index.html\<close> offers for another version: up to the root, then
  down to the page's directory in the target version.
\<close>

lemma last_slash_segments:
  "segs \<noteq> [] \<Longrightarrow> last (concat (map (\<lambda>s. s @ ''/'') segs)) = CHR ''/''"
  by (induction segs rule: rev_induct) simp_all

lemma link_of_other_version:
  assumes ps: "\<forall>s\<in>set ps. valid_seg s" and vd: "valid_seg version_in_dir"
    and vt: "valid_seg target" and ne: "target \<noteq> version_in_dir"
  shows "get_value_for_option docsdir
           (joinpath docsdir (location latest version_in_dir ps @ [''index.html'']))
           target version_in_dir latest
         = Inr (concat (map (\<lambda>s. s @ ''/'')
                  (replicate (length (location latest version_in_dir ps)) ''..''
                   @ location latest target ps)))"
proof -
  define cur where "cur = location latest version_in_dir ps"
  define pre where "pre = (if target = latest then [] else [target])"
  define n where "n = length cur"
  define x where "x = concat (map (\<lambda>s. s @ ''/'') (replicate n ''..'' @ location latest target ps))"
  have v0: "value_before_trim docsdir (joinpath docsdir (cur @ [''index.html''])) target
             version_in_dir latest
           = Inr (str_replace ''//'' ''/''
                   (str_mul ''../'' (int (length (cur @ [''index.html''])) - 1)
                    @ (if target \<noteq> latest then target else []) @ ''/''
                    @ (if version_in_dir = latest then str_of_parts (cur @ [''index.html''])
                       else str_of_parts (tl (cur @ [''index.html'']))))) "
    using ne by (simp add: value_before_trim_def relative_to_joinpath Let_def)
  have e1: "str_mul ''../'' (int (length (cur @ [''index.html''])) - 1) = concat (replicate n ''../'')"
    by (simp add: str_mul_def n_def)
  have e2: "(if target \<noteq> latest then target else []) = (if pre = [] then [] else hd pre)"
    by (simp add: pre_def)
  have e3: "(if version_in_dir = latest then str_of_parts (cur @ [''index.html''])
             else str_of_parts (tl (cur @ [''index.html''])))
            = str_join ''/'' (ps @ [''index.html''])"
    by (simp add: cur_def location_def str_of_parts_def)
  have v: "value_before_trim docsdir (joinpath docsdir (cur @ [''index.html''])) target
             version_in_dir latest
           = Inr (str_replace ''//'' ''/''
                   (concat (replicate n ''../'') @ (if pre = [] then [] else hd pre) @ ''/''
                      @ str_join ''/'' (ps @ [''index.html''])))"
    using v0 unfolding e1 e2 e3 .
  have pv: "\<forall>s\<in>set pre. valid_seg s" using vt by (simp add: pre_def)
  have npos: "pre = [] \<longrightarrow> 0 < n"
    using ne by (auto simp: pre_def n_def cur_def location_def split: if_splits)
  have loc: "take 1 pre @ ps = location latest target ps" by (simp add: pre_def location_def)
  have c: "str_replace ''//'' ''/''
                   (concat (replicate n ''../'') @ (if pre = [] then [] else hd pre) @ ''/''
                      @ str_join ''/'' (ps @ [''index.html'']))
           = x @ ''index.html''"
    unfolding collapsed_value [OF ps pv npos] loc x_def by simp
  have "x = [] \<or> last x = CHR ''/''"
  proof (cases "replicate n ''..'' @ location latest target ps = []")
    case True
    then show ?thesis by (simp add: x_def)
  next
    case False
    then show ?thesis unfolding x_def by (intro disjI2 last_slash_segments)
  qed
  then have "rstrip ''.html'' (rstrip ''index.html'' (x @ ''index.html'')) = x"
    by (rule trim_index)
  then have "get_value_for_option docsdir (joinpath docsdir (cur @ [''index.html''])) target
             version_in_dir latest = Inr x"
    unfolding get_value_for_option_def v c by simp
  then show ?thesis unfolding cur_def x_def n_def .
qed

lemma hop_lands:
  assumes ps: "\<forall>s\<in>set ps. valid_seg s" and vd: "valid_seg version_in_dir"
    and vt: "valid_seg target" and ne: "target \<noteq> version_in_dir"
  shows "hop docsdir latest version_in_dir (location latest version_in_dir ps) target
           = Inr (location latest target ps)"
proof -
  let ?cur = "location latest version_in_dir ps"
  let ?segs = "replicate (length ?cur) ''..'' @ location latest target ps"
  have tgt: "\<forall>s\<in>set (location latest target ps). valid_seg s"
    using ps vt by (simp add: location_def)
  have "\<forall>s\<in>set ?segs. CHR ''/'' \<notin> set s"
  proof
    fix s assume "s \<in> set ?segs"
    then consider "s = ''..''" | "s \<in> set (location latest target ps)" by auto
    then show "CHR ''/'' \<notin> set s"
    proof cases
      case 1
      then show ?thesis by simp
    next
      case 2
      with tgt have "valid_seg s" by blast
      then show ?thesis by (simp add: valid_seg_def)
    qed
  qed
  then have sp: "split_on CHR ''/'' (concat (map (\<lambda>s. s @ ''/'') ?segs)) = ?segs @ [[]]"
    by (rule split_on_segments)
  have "navigate ?cur (concat (map (\<lambda>s. s @ ''/'') ?segs))
        = follow ?cur (replicate (length ?cur) ''..'' @ (location latest target ps @ [[]]))"
    by (simp only: navigate_def sp append_assoc)
  also have "\<dots> = follow [] (location latest target ps @ [[]])"
    by (rule follow_ups) simp
  also have "\<dots> = follow ([] @ location latest target ps) [[]]"
    using tgt by (rule follow_segments)
  also have "\<dots> = location latest target ps" by simp
  finally have nav: "navigate ?cur (concat (map (\<lambda>s. s @ ''/'') ?segs))
        = location latest target ps" .
  show ?thesis
    unfolding hop_def link_of_other_version [OF assms] by (simp only: sum.case nav)
qed

text \<open>
  Claim C8, as stated, fails: from the page \<open>guide/index.html\<close> of the promoted version
  \<open>v1.2.4\<close>, the link for \<open>v1.2.4\<close> itself is \<open>guide/\<close>, which leads from the page's
  directory to \<open>guide/guide\<close>; the link for \<open>master\<close> offered there leads to
  \<open>master/guide/guide\<close>, whereas the direct link for \<open>master\<close> leads to \<open>master/guide\<close>.
\<close>

theorem link_hops_counterexample:
  "hop \<lparr>path_root = ''/'', path_segs = [''tmp'', ''abc'']\<rparr> ''v1.2.4'' ''v1.2.4''
      [''guide''] ''v1.2.4'' = Inr [''guide'', ''guide'']
   \<and> hop \<lparr>path_root = ''/'', path_segs = [''tmp'', ''abc'']\<rparr> ''v1.2.4'' ''v1.2.4''
      [''guide'', ''guide''] ''master'' = Inr [''master'', ''guide'', ''guide'']
   \<and> hop \<lparr>path_root = ''/'', path_segs = [''tmp'', ''abc'']\<rparr> ''v1.2.4'' ''v1.2.4''
      [''guide''] ''master'' = Inr [''master'', ''guide'']"
  by (simp add: hop_def get_value_for_option_def value_before_trim_def relative_to_def
      joinpath_def str_of_parts_def str_mul_def str_replace_def rstrip_def navigate_def
      eval_nat_numeral)

text \<open>
  Claim C8, amended. For a page \<open>index.html\<close> in a directory of valid segments, located
  where its version lives, and versions \<open>v1\<close>, \<open>v2\<close> that are single path components,
  with \<open>v1\<close> and \<open>v2\<close> different from the page's version and from each other: the link
  for \<open>v1\<close> leads to the page's directory in \<open>v1\<close>; the link for \<open>v2\<close> offered there
  leads to the page's directory in \<open>v2\<close>; and so does the direct link for \<open>v2\<close>.
\<close>

theorem link_hops_agree:
  assumes "\<forall>s\<in>set ps. valid_seg s"
    and "valid_seg version_in_dir" and "valid_seg v1" and "valid_seg v2"
    and "v1 \<noteq> version_in_dir" and "v2 \<noteq> v1" and "v2 \<noteq> version_in_dir"
  shows "hop docsdir latest version_in_dir (location latest version_in_dir ps) v1
           = Inr (location latest v1 ps)
       \<and> hop docsdir latest v1 (location latest v1 ps) v2 = Inr (location latest v2 ps)
       \<and> hop docsdir latest version_in_dir (location latest version_in_dir ps) v2
           = Inr (location latest v2 ps)"
  using assms by (simp add: hop_lands)

theorem link_hops_agree_witness:
  "valid_seg ''fundamentals'' \<and> valid_seg ''document''
   \<and> valid_seg ''v1.2.3'' \<and> valid_seg ''master'' \<and> valid_seg ''v1.2.4''
   \<and> ''master'' \<noteq> ''v1.2.3'' \<and> ''v1.2.4'' \<noteq> ''master'' \<and> ''v1.2.4'' \<noteq> ''v1.2.3''
   \<and> hop \<lparr>path_root = ''/'', path_segs = [''tmp'', ''abc'']\<rparr> ''v1.2.4'' ''v1.2.3''
        [''v1.2.3'', ''fundamentals'', ''document''] ''master''
      = Inr [''master'', ''fundamentals'', ''document'']
   \<and> hop \<lparr>path_root = ''/'', path_segs = [''tmp'', ''abc'']\<rparr> ''v1.2.4'' ''master''
        [''master'', ''fundamentals'', ''document''] ''v1.2.4''
      = Inr [''fundamentals'', ''document'']
   \<and> hop \<lparr>path_root = ''/'', path_segs = [''tmp'', ''abc'']\<rparr> ''v1.2.4'' ''v1.2.3''
        [''v1.2.3'', ''fundamentals'', ''document''] ''v1.2.4''
      = Inr [''fundamentals'', ''document'']"
proof -
  have h1: "\<forall>s\<in>set [''fundamentals'', ''document'']. valid_seg s" by (simp add: valid_seg_def)
  have h2: "valid_seg ''v1.2.3''" by (simp add: valid_seg_def)
  have h3: "valid_seg ''master''" by (simp add: valid_seg_def)
  have h4: "valid_seg ''v1.2.4''" by (simp add: valid_seg_def)
  have h5: "''master'' \<noteq> ''v1.2.3''" by simp
  have h6: "''v1.2.4'' \<noteq> ''master''" by simp
  have h7: "''v1.2.4'' \<noteq> ''v1.2.3''" by simp
  from link_hops_agree [OF h1 h2 h3 h4 h5 h6 h7,
      of "\<lparr>path_root = ''/'', path_segs = [''tmp'', ''abc'']\<rparr>" "''v1.2.4''"]
    h1 h2 h3 h4
  show ?thesis by (simp add: location_def)
qed

end
